theory Spec2Isabelle
  imports Main "HOL-Library.AList" "HOL-Library.Sublist" "HOL-Library.Multiset"
begin

section \<open>JavaScript strings and objects\<close>

text \<open>
  Strings are \<^typ>\<open>string\<close>. The only characters the code inspects are the ASCII
  characters \<open>.\<close>, \<open>[\<close> and \<open>]\<close>; everything else is carried along unchanged.

  A JavaScript object whose keys are never integer-like (here every key starts with
  \<open>#\<close> or \<open>:\<close>) enumerates its own keys in insertion order, and assigning to an
  existing key keeps the key's position. Such an object is an association list, and
  \<open>obj[k] = v\<close> is \<^const>\<open>AList.update\<close>: replace in place, or append at the end.
\<close>

text \<open>\<open>String.prototype.split\<close> with a one-character separator: never an empty result.\<close>

fun split :: "char \<Rightarrow> string \<Rightarrow> string list" where
  "split c [] = [[]]"
| "split c (x # xs) =
     (if x = c then [] # split c xs
      else (case split c xs of [] \<Rightarrow> [[x]] | y # ys \<Rightarrow> (x # y) # ys))"

text \<open>\<open>Array.prototype.join\<close>.\<close>

fun join :: "string \<Rightarrow> string list \<Rightarrow> string" where
  "join sep [] = []"
| "join sep [x] = x"
| "join sep (x # y # ys) = x @ sep @ join sep (y # ys)"

text \<open>\<open>s.endsWith(c)\<close> for a one-character \<open>c\<close>.\<close>

definition endsWith :: "string \<Rightarrow> char \<Rightarrow> bool" where
  "endsWith s c = (s \<noteq> [] \<and> last s = c)"

text \<open>\<open>s.indexOf(c)\<close>: the position of the first \<open>c\<close>, or \<open>-1\<close>.\<close>

fun indexOf :: "string \<Rightarrow> char \<Rightarrow> int" where
  "indexOf [] c = -1"
| "indexOf (x # xs) c =
     (if x = c then 0 else (let i = indexOf xs c in if i < 0 then -1 else i + 1))"

text \<open>
  \<open>s.substring(a, b)\<close> and \<open>s.substring(a)\<close>: both arguments are clamped to
  \<open>0 .. s.length\<close> and swapped when the first is the larger one.
\<close>

definition clamp :: "string \<Rightarrow> int \<Rightarrow> nat" where
  "clamp s i = (if i < 0 then 0 else min (nat i) (length s))"

definition substring :: "string \<Rightarrow> int \<Rightarrow> int \<Rightarrow> string" where
  "substring s a b =
     (let lo = min (clamp s a) (clamp s b); hi = max (clamp s a) (clamp s b)
      in take (hi - lo) (drop lo s))"

definition substringFrom :: "string \<Rightarrow> int \<Rightarrow> string" where
  "substringFrom s a = drop (clamp s a) s"

text \<open>
  The template literal \<open>`${n}`\<close> of a counter: its decimal digits. The counters are
  JavaScript numbers that start at 0 and only ever grow by one; they are exact on every
  integer a run can reach, so they are natural numbers here.
\<close>

definition digit :: "nat \<Rightarrow> char" where
  "digit d = ''0123456789'' ! d"

fun toString :: "nat \<Rightarrow> string" where
  "toString n = (if n < 10 then [digit n] else toString (n div 10) @ [digit (n mod 10)])"

declare toString.simps [simp del]

section \<open>Attribute values\<close>

text \<open>
  \<open>Table.AttributeValues\<close> (Table.ts): null, string, number, boolean, binary, the three
  sets, map and list. Two more values are not members of the TypeScript type but are what
  reading a property can give: \<open>Undefined\<close> is JavaScript's \<open>undefined\<close>, which a missing
  property reads as and \<open>splitTableData\<close> tests for; \<open>Inherited n\<close> is the member \<open>n\<close> of
  \<open>Object.prototype\<close>, which an object that has no property \<open>n\<close> of its own reads as.
  Values are only stored and compared, never computed with, so numbers are integers and
  binaries are strings.
\<close>

datatype AttributeValues =
    Undefined
  | Null
  | StringValue string
  | NumberValue int
  | BooleanValue bool
  | BinaryValue string
  | StringSetValue "string list"
  | NumberSetValue "int list"
  | BinarySetValue "string list"
  | ListValue "AttributeValues list"
  | MapValue "(string \<times> AttributeValues) list"
  | Inherited string

type_synonym AttributeValuesMap = "string \<rightharpoonup> AttributeValues"

section \<open>ExpressionAttributes\<close>

text \<open>
  The fields of the class, in its order. \<open>values'\<close> is the field \<open>values\<close> of the source.
  The methods take the instance and return their result together with the instance as
  they leave it.
\<close>

record ExpressionAttributes =
  isReservedName :: "string \<Rightarrow> bool"
  isValidName :: "string \<Rightarrow> bool"
  treatNameAsPath :: bool
  names :: "(string \<times> string) list"
  nextName :: nat
  values' :: "(string \<times> AttributeValues) list"
  nextValue :: nat

text \<open>\<open>new ExpressionAttributes()\<close>: the field initialisers of the class.\<close>

definition newExpressionAttributes :: ExpressionAttributes where
  "newExpressionAttributes =
     \<lparr> isReservedName = (\<lambda>_. False), isValidName = (\<lambda>_. False), treatNameAsPath = True,
       names = [], nextName = 0, values' = [], nextValue = 0 \<rparr>"

text \<open>
  The \<open>for (const key in names)\<close> loop of \<open>addName\<close>: the first key, in enumeration
  order, whose value is the name.
\<close>

definition findKey :: "(string \<times> string) list \<Rightarrow> string \<Rightarrow> string option" where
  "findKey ns name = map_option fst (find (\<lambda>kv. snd kv = name) ns)"

text \<open>\<open>addName\<close> returns the alias and the updated instance.\<close>

definition addName :: "ExpressionAttributes \<Rightarrow> string \<Rightarrow> string \<times> ExpressionAttributes" where
  "addName e name =
     (if isReservedName e name then
        (let attName = ''#'' @ name
         in (attName, e\<lparr>names := AList.update attName name (names e)\<rparr>))
      else if \<not> isValidName e name then
        (case findKey (names e) name of
           Some key \<Rightarrow> (key, e)
         | None \<Rightarrow>
            (let attName = ''#n'' @ toString (nextName e)
             in (attName, e\<lparr>names := AList.update attName name (names e),
                              nextName := nextName e + 1\<rparr>)))
      else (name, e))"

text \<open>
  One step of the \<open>reduce\<close> in \<open>addPath\<close>: the string pushed for the segment \<open>cur\<close> (\<open>curr\<close> in the source).
\<close>

definition addSegment :: "ExpressionAttributes \<Rightarrow> string \<Rightarrow> string \<times> ExpressionAttributes" where
  "addSegment e cur =
     (if endsWith cur CHR '']'' then
        (let beginBracket = indexOf cur CHR ''['';
             (listName, e') = addName e (substring cur 0 beginBracket)
         in (listName @ substringFrom cur beginBracket, e'))
      else addName e cur)"

text \<open>The whole \<open>reduce\<close>: \<open>pathList\<close> and the updated instance.\<close>

fun addSegments :: "ExpressionAttributes \<Rightarrow> string list \<Rightarrow> string list \<times> ExpressionAttributes" where
  "addSegments e [] = ([], e)"
| "addSegments e (cur # rest) =
     (let (a, e') = addSegment e cur; (as, e'') = addSegments e' rest
      in (a # as, e''))"

definition addPath :: "ExpressionAttributes \<Rightarrow> string \<Rightarrow> string \<times> ExpressionAttributes" where
  "addPath e name =
     (if treatNameAsPath e then
        (let (pathList, e') = addSegments e (split CHR ''.'' name)
         in (join ''.'' pathList, e'))
      else addName e name)"

definition addValue :: "ExpressionAttributes \<Rightarrow> AttributeValues \<Rightarrow> string \<times> ExpressionAttributes" where
  "addValue e v =
     (let name = '':v'' @ toString (nextValue e)
      in (name, e\<lparr>values' := AList.update name v (values' e),
                   nextValue := nextValue e + 1\<rparr>))"

definition getPaths :: "ExpressionAttributes \<Rightarrow> (string \<times> string) list" where
  "getPaths e = names e"

definition getValues :: "ExpressionAttributes \<Rightarrow> (string \<times> AttributeValues) list" where
  "getValues e = values' e"

definition reset :: "ExpressionAttributes \<Rightarrow> ExpressionAttributes" where
  "reset e = e\<lparr>names := [], nextName := 0, values' := [], nextValue := 0\<rparr>"

subsection \<open>The path rule as the specification words it\<close>

text \<open>
  The specification's reading of a segment: the name part is what stands before the first
  \<open>[\<close>, the bracket suffix is the rest from that \<open>[\<close> on. A segment that ends in \<open>]\<close>
  has its name part aliased and its bracket suffix appended; any other segment is aliased
  whole. These definitions follow the specification; \<open>addSegment\<close> above follows the
  source.
\<close>

definition namePart :: "string \<Rightarrow> string" where
  "namePart cur = takeWhile (\<lambda>c. c \<noteq> CHR ''['') cur"

definition bracketSuffix :: "string \<Rightarrow> string" where
  "bracketSuffix cur = dropWhile (\<lambda>c. c \<noteq> CHR ''['') cur"

definition specSegment :: "ExpressionAttributes \<Rightarrow> string \<Rightarrow> string \<times> ExpressionAttributes" where
  "specSegment e cur =
     (if endsWith cur CHR '']'' then
        (let (listName, e') = addName e (namePart cur) in (listName @ bracketSuffix cur, e'))
      else addName e cur)"

fun specSegments :: "ExpressionAttributes \<Rightarrow> string list \<Rightarrow> string list \<times> ExpressionAttributes" where
  "specSegments e [] = ([], e)"
| "specSegments e (cur # rest) =
     (let (a, e') = specSegment e cur; (as, e'') = specSegments e' rest
      in (a # as, e''))"

definition specPath :: "ExpressionAttributes \<Rightarrow> string \<Rightarrow> string \<times> ExpressionAttributes" where
  "specPath e name =
     (if treatNameAsPath e then
        (let (pathList, e') = specSegments e (split CHR ''.'' name)
         in (join ''.'' pathList, e'))
      else addName e name)"

text \<open>Every segment that closes a bracket also opens one.\<close>

definition bracketsOpened :: "string \<Rightarrow> bool" where
  "bracketsOpened name =
     list_all (\<lambda>cur. endsWith cur CHR '']'' \<longrightarrow> CHR ''['' \<in> set cur) (split CHR ''.'' name)"

text \<open>
  The raw attribute name a segment refers to and the bracket suffix that follows it, in
  the specification's reading: of a segment that ends in \<open>]\<close>, its name part and its
  bracket suffix; of any other segment, the segment and nothing.
\<close>

definition rawName :: "string \<Rightarrow> string" where
  "rawName cur = (if endsWith cur CHR '']'' then namePart cur else cur)"

definition rawSuffix :: "string \<Rightarrow> string" where
  "rawSuffix cur = (if endsWith cur CHR '']'' then bracketSuffix cur else [])"

subsection \<open>Sequences of requests on one instance\<close>

datatype request = AddName string | AddPath string | AddValue AttributeValues

fun doRequest :: "ExpressionAttributes \<Rightarrow> request \<Rightarrow> string \<times> ExpressionAttributes" where
  "doRequest e (AddName n) = addName e n"
| "doRequest e (AddPath p) = addPath e p"
| "doRequest e (AddValue v) = addValue e v"

text \<open>The requests are made one after the other; each sees the instance the previous one left.\<close>

fun doRequests :: "ExpressionAttributes \<Rightarrow> request list \<Rightarrow> string list \<times> ExpressionAttributes" where
  "doRequests e [] = ([], e)"
| "doRequests e (r # rs) =
     (let (out, e') = doRequest e r; (outs, e'') = doRequests e' rs
      in (out # outs, e''))"

text \<open>The raw names one request refers to, in order.\<close>

fun rawNames :: "bool \<Rightarrow> request \<Rightarrow> string list" where
  "rawNames asPath (AddName n) = [n]"
| "rawNames asPath (AddPath p) = (if asPath then map rawName (split CHR ''.'' p) else [p])"
| "rawNames asPath (AddValue v) = []"

text \<open>A path with every raw name replaced by its alias under \<open>f\<close>.\<close>

definition aliasedPath :: "(string \<Rightarrow> string) \<Rightarrow> bool \<Rightarrow> string \<Rightarrow> string" where
  "aliasedPath f asPath p =
     (if asPath then join ''.'' (map (\<lambda>cur. f (rawName cur) @ rawSuffix cur) (split CHR ''.'' p))
      else f p)"

text \<open>The alias the exported names map holds for a raw name.\<close>

definition aliasOf :: "(string \<times> string) list \<Rightarrow> string \<Rightarrow> string" where
  "aliasOf ns n = (case findKey ns n of Some a \<Rightarrow> a | None \<Rightarrow> n)"

definition isAddValue :: "request \<Rightarrow> bool" where
  "isAddValue r = (case r of AddValue v \<Rightarrow> True | _ \<Rightarrow> False)"

text \<open>
  What holds of the names of an instance that only ever ran with the default predicates:
  the aliases are \<open>#n0\<close>, \<open>#n1\<close>, \<open>\<dots>\<close> in allocation order, and no raw name
  occurs twice.
\<close>

definition namesOK :: "ExpressionAttributes \<Rightarrow> bool" where
  "namesOK e =
     (isReservedName e = (\<lambda>_. False) \<and> isValidName e = (\<lambda>_. False) \<and>
      map fst (names e) = map (\<lambda>k. ''#n'' @ toString k) [0..<nextName e] \<and>
      distinct (map snd (names e)))"

definition valuesOK :: "ExpressionAttributes \<Rightarrow> bool" where
  "valuesOK e = (map fst (values' e) = map (\<lambda>k. '':v'' @ toString k) [0..<nextValue e])"

text \<open>What a request is expected to return when every raw name has the alias \<open>f\<close> gives it.\<close>

fun answer :: "(string \<Rightarrow> string) \<Rightarrow> bool \<Rightarrow> request \<Rightarrow> string \<Rightarrow> bool" where
  "answer f asPath (AddName n) out = (out = f n)"
| "answer f asPath (AddPath p) out = (out = aliasedPath f asPath p)"
| "answer f asPath (AddValue v) out = True"

text \<open>
  A request whose path, when it is split into segments, opens every bracket it closes.
\<close>

fun opened :: "bool \<Rightarrow> request \<Rightarrow> bool" where
  "opened asPath (AddPath p) = (if asPath then bracketsOpened p else True)"
| "opened asPath r = True"

subsection \<open>The static name test\<close>

text \<open>
  \<open>ExpressionAttributes.isValidAttributeName\<close>: the regular expression
  \<open>/^[A-Za-z][A-Za-z0-9]*$/\<close>. It is what a caller installs as \<open>isValidName\<close> to leave
  plain names unaliased.
\<close>

definition isLetter :: "char \<Rightarrow> bool" where
  "isLetter c = (c \<in> set ''ABCDEFGHIJKLMNOPQRSTUVWXYZabcdefghijklmnopqrstuvwxyz'')"

definition isDigit :: "char \<Rightarrow> bool" where
  "isDigit c = (c \<in> set ''0123456789'')"

definition isValidAttributeName :: "string \<Rightarrow> bool" where
  "isValidAttributeName name =
     (case name of [] \<Rightarrow> False
      | c # cs \<Rightarrow> isLetter c \<and> list_all (\<lambda>d. isLetter d \<or> isDigit d) cs)"

section \<open>Request parameters\<close>

text \<open>
  The request objects \<open>Table.ts\<close> builds (\<open>DocumentClient.GetItemInput\<close>,
  \<open>PutItemInput\<close>, \<open>DeleteItemInput\<close>, \<open>UpdateItemInput\<close>) and the partial ones a
  caller passes as \<open>options.params\<close> are one record with every field optional: a field
  that is \<open>None\<close> is absent from the object. \<open>otherParams\<close> holds every further field
  (\<open>ReturnValues\<close>, \<open>ConsistentRead\<close>, \<open>\<dots>\<close>), which the code only copies.
\<close>

record Params =
  TableName :: "string option"
  Key :: "AttributeValuesMap option"
  Item :: "AttributeValuesMap option"
  UpdateExpression :: "string option"
  ConditionExpression :: "string option"
  ExpressionAttributeNames :: "(string \<times> string) list option"
  ExpressionAttributeValues :: "(string \<times> AttributeValues) list option"
  otherParams :: "string \<rightharpoonup> AttributeValues"

text \<open>The empty object \<open>{}\<close>.\<close>

definition emptyParams :: Params where
  "emptyParams =
     \<lparr> TableName = None, Key = None, Item = None, UpdateExpression = None,
       ConditionExpression = None, ExpressionAttributeNames = None,
       ExpressionAttributeValues = None, otherParams = Map.empty \<rparr>"

text \<open>
  \<open>ExpressionAttributes.addParams\<close>. The source writes into \<open>input\<close> and returns it.
\<close>

definition addParams :: "ExpressionAttributes \<Rightarrow> Params \<Rightarrow> Params" where
  "addParams e input =
     (let input1 = (if length (map fst (names e)) > 0
                    then input\<lparr>ExpressionAttributeNames := Some (names e)\<rparr> else input);
          input2 = (if length (map fst (values' e)) > 0
                    then input1\<lparr>ExpressionAttributeValues := Some (values' e)\<rparr> else input1)
      in input2)"

section \<open>Conditions\<close>

text \<open>
  Modelled from the spec: \<open>Condition.ts\<close> (\<open>Condition.Resolver\<close>, \<open>Condition.exists\<close>,
  \<open>Condition.notExists\<close>, \<open>Condition.addAndParam\<close>) is not under \<open>src/\<close>. The
  specification leaves the condition grammar out and fixes only that conditions use the
  request's interning table. So a condition is any function from the interning table to
  an expression string and the updated table; the conditions \<open>Table.ts\<close> builds itself and
  the way several conditions are joined are parameters; and \<open>addAndParam\<close> attaches the
  joined expression as \<open>ConditionExpression\<close> when there is a condition and leaves the
  request alone when there is none (the tests of \<open>deleteParams\<close> and \<open>updateParams\<close>
  without conditions expect \<open>Key\<close> and \<open>TableName\<close> only).
\<close>

type_synonym Resolver = "ExpressionAttributes \<Rightarrow> string \<times> ExpressionAttributes"

text \<open>
  Modelled from the spec: the operations of \<open>Condition.ts\<close> that \<open>Table.ts\<close> calls, as
  parameters. \<open>exists'\<close> is \<open>Condition.exists\<close>; \<open>andResolver\<close> is the conjunction of
  several conditions.
\<close>

record Condition =
  exists' :: "string \<Rightarrow> Resolver"
  notExists :: "string \<Rightarrow> Resolver"
  andResolver :: "Resolver list \<Rightarrow> Resolver"

text \<open>
  Modelled from the spec: \<open>Condition.addAndParam\<close>, missing from \<open>src/\<close>; it writes
  \<open>ConditionExpression\<close> and nothing else, and only when there is a condition.
\<close>

definition addAndParam ::
  "Condition \<Rightarrow> Resolver list option \<Rightarrow> ExpressionAttributes \<Rightarrow> Params \<Rightarrow>
   ExpressionAttributes \<times> Params" where
  "addAndParam C conds e ps =
     (case conds of
        None \<Rightarrow> (e, ps)
      | Some [] \<Rightarrow> (e, ps)
      | Some (c # cs) \<Rightarrow>
          (let (exp, e') = andResolver C (c # cs) e
           in (e', ps\<lparr>ConditionExpression := Some exp\<rparr>)))"

section \<open>The update compiler\<close>

text \<open>
  Modelled from the spec: \<open>Update.ts\<close> (\<open>Update.addParam\<close> and the update directives) is
  not under \<open>src/\<close>. The definitions of this section follow section 4.2 of the
  specification: the directive variants of its section 3, the table from directive to
  clause and fragment, the four clause buffers filled in visiting order, nested \<open>Map\<close>
  directives compiled depth first under the path \<open>path.key\<close>, and the assembly rule.
  Aliases come from \<open>addPath\<close> and \<open>addValue\<close> above; within one directive the target
  path is interned first, then the path it reads, then the value, which is the numbering
  the test \<open>Model.updateParams with all fields\<close> expects. \<open>Decrement\<close> reads another
  path the way \<open>Increment\<close> does.
\<close>

datatype Directive =
    Set AttributeValues
  | Increment "string option" AttributeValues
  | Decrement "string option" AttributeValues
  | Delete
  | AddToSet AttributeValues
  | RemoveFromSet AttributeValues
  | Prepend AttributeValues
  | Append AttributeValues
  | PathReference string
  | Map "(string \<times> Directive) list"

text \<open>
  Modelled from the spec: the state of one compilation, the interning table and the four
  clause buffers.
\<close>

record UpdateBuffers =
  attrs :: ExpressionAttributes
  setList :: "string list"
  removeList :: "string list"
  addList :: "string list"
  delList :: "string list"

text \<open>
  Modelled from the spec: the fragment \<open>alias(path) = alias(src) op valueAlias\<close> of
  \<open>Increment\<close> and \<open>Decrement\<close>; \<open>src\<close> defaults to \<open>path\<close>.
\<close>

definition arith :: "string \<Rightarrow> string \<Rightarrow> string option \<Rightarrow> AttributeValues \<Rightarrow> UpdateBuffers \<Rightarrow> UpdateBuffers" where
  "arith op path src v b =
     (let (p, e1) = addPath (attrs b) path;
          (s, e2) = addPath e1 (case src of None \<Rightarrow> path | Some q \<Rightarrow> q);
          (a, e3) = addValue e2 v
      in b\<lparr>attrs := e3, setList := setList b @ [p @ '' = '' @ s @ '' '' @ op @ '' '' @ a]\<rparr>)"

text \<open>
  Modelled from the spec: the table from directive to clause and fragment of section 4.2,
  one equation per row.
\<close>

fun compile :: "string \<Rightarrow> Directive \<Rightarrow> UpdateBuffers \<Rightarrow> UpdateBuffers"
  and compileMap :: "string \<Rightarrow> (string \<times> Directive) list \<Rightarrow> UpdateBuffers \<Rightarrow> UpdateBuffers" where
  "compile path (Set v) b =
     (let (p, e1) = addPath (attrs b) path; (a, e2) = addValue e1 v
      in b\<lparr>attrs := e2, setList := setList b @ [p @ '' = '' @ a]\<rparr>)"
| "compile path (Increment src v) b = arith ''+'' path src v b"
| "compile path (Decrement src v) b = arith ''-'' path src v b"
| "compile path Delete b =
     (let (p, e1) = addPath (attrs b) path
      in b\<lparr>attrs := e1, removeList := removeList b @ [p]\<rparr>)"
| "compile path (AddToSet v) b =
     (let (p, e1) = addPath (attrs b) path; (a, e2) = addValue e1 v
      in b\<lparr>attrs := e2, addList := addList b @ [p @ '' '' @ a]\<rparr>)"
| "compile path (RemoveFromSet v) b =
     (let (p, e1) = addPath (attrs b) path; (a, e2) = addValue e1 v
      in b\<lparr>attrs := e2, delList := delList b @ [p @ '' '' @ a]\<rparr>)"
| "compile path (Prepend v) b =
     (let (p, e1) = addPath (attrs b) path; (a, e2) = addValue e1 v
      in b\<lparr>attrs := e2,
           setList := setList b @ [p @ '' = list_append('' @ a @ '', '' @ p @ '')'']\<rparr>)"
| "compile path (Append v) b =
     (let (p, e1) = addPath (attrs b) path; (a, e2) = addValue e1 v
      in b\<lparr>attrs := e2,
           setList := setList b @ [p @ '' = list_append('' @ p @ '', '' @ a @ '')'']\<rparr>)"
| "compile path (PathReference n) b =
     (let (p, e1) = addPath (attrs b) path
      in b\<lparr>attrs := e1, setList := setList b @ [p @ '' = '' @ p]\<rparr>)"
| "compile path (Map kvs) b = compileMap path kvs b"
| "compileMap path [] b = b"
| "compileMap path (kv # rest) b =
     compileMap path rest (compile (path @ ''.'' @ fst kv) (snd kv) b)"

text \<open>
  Modelled from the spec: the top level of an update record; each field is compiled under
  its own name, in the order of the record.
\<close>

fun compileFields :: "(string \<times> Directive) list \<Rightarrow> UpdateBuffers \<Rightarrow> UpdateBuffers" where
  "compileFields [] b = b"
| "compileFields (kv # rest) b = compileFields rest (compile (fst kv) (snd kv) b)"

text \<open>
  Modelled from the spec: the assembly rule of section 4.2; the non-empty buffers, keyword
  first, in the fixed order.
\<close>

definition clause :: "string \<Rightarrow> string list \<Rightarrow> string list" where
  "clause keyword buf = (if buf = [] then [] else [keyword @ '' '' @ join '', '' buf])"

text \<open>
  Modelled from the spec: the final expression, absent when every buffer is empty.
\<close>

definition buildExpression :: "UpdateBuffers \<Rightarrow> string option" where
  "buildExpression b =
     (let clauses = clause ''SET'' (setList b) @ clause ''REMOVE'' (removeList b) @
                    clause ''ADD'' (addList b) @ clause ''DELETE'' (delList b)
      in if clauses = [] then None else Some (join '' '' clauses))"

text \<open>
  Modelled from the spec: \<open>Update.addParam\<close>, missing from \<open>src/\<close>; it compiles the item
  into the interning table and attaches \<open>UpdateExpression\<close> when there is one.
\<close>

definition Update_addParam ::
  "(string \<times> Directive) list option \<Rightarrow> ExpressionAttributes \<Rightarrow> Params \<Rightarrow>
   ExpressionAttributes \<times> Params" where
  "Update_addParam item e ps =
     (case item of
        None \<Rightarrow> (e, ps)
      | Some fs \<Rightarrow>
          (let b = compileFields fs
                     \<lparr>attrs = e, setList = [], removeList = [], addList = [], delList = []\<rparr>
           in (case buildExpression b of
                 None \<Rightarrow> (attrs b, ps)
               | Some exp \<Rightarrow> (attrs b, ps\<lparr>UpdateExpression := Some exp\<rparr>))))"

text \<open>The clauses a directive contributes to.\<close>

datatype Clause = SET | REMOVE | ADD | DELETE

fun clausesOf :: "Directive \<Rightarrow> Clause list"
  and clausesOfMap :: "(string \<times> Directive) list \<Rightarrow> Clause list" where
  "clausesOf (Set v) = [SET]"
| "clausesOf (Increment src v) = [SET]"
| "clausesOf (Decrement src v) = [SET]"
| "clausesOf Delete = [REMOVE]"
| "clausesOf (AddToSet v) = [ADD]"
| "clausesOf (RemoveFromSet v) = [DELETE]"
| "clausesOf (Prepend v) = [SET]"
| "clausesOf (Append v) = [SET]"
| "clausesOf (PathReference n) = [SET]"
| "clausesOf (Map kvs) = clausesOfMap kvs"
| "clausesOfMap [] = []"
| "clausesOfMap (kv # rest) = clausesOf (snd kv) @ clausesOfMap rest"

definition hasEachKind :: "(string \<times> Directive) list \<Rightarrow> bool" where
  "hasEachKind fs = (set (clausesOfMap fs) = {SET, REMOVE, ADD, DELETE})"

text \<open>
  What one directive does to the four buffers: it appends to each, and appends something
  exactly to the buffers of the clauses it contributes to.
\<close>

definition extends :: "Clause list \<Rightarrow> UpdateBuffers \<Rightarrow> UpdateBuffers \<Rightarrow> bool" where
  "extends cs b b' =
     (\<exists>s r a d. setList b' = setList b @ s \<and> removeList b' = removeList b @ r \<and>
        addList b' = addList b @ a \<and> delList b' = delList b @ d \<and>
        (s \<noteq> []) = (SET \<in> set cs) \<and> (r \<noteq> []) = (REMOVE \<in> set cs) \<and>
        (a \<noteq> []) = (ADD \<in> set cs) \<and> (d \<noteq> []) = (DELETE \<in> set cs))"

section \<open>Table\<close>

datatype KeyTypes = HASH | RANGE

text \<open>
  The fields of \<open>Table\<close> the request builders read. \<open>keySchema\<close> is an object from key
  attribute name to key type; \<open>Object.keys\<close> is its first column. The client, the key
  attribute types and the indexes play no part in building item requests.
\<close>

record Table =
  name :: string
  keySchema :: "(string \<times> KeyTypes) list"

definition getKeyName :: "(string \<times> KeyTypes) list \<Rightarrow> KeyTypes \<Rightarrow> string" where
  "getKeyName schema type =
     (case find (\<lambda>kv. snd kv = type) schema of Some kv \<Rightarrow> fst kv | None \<Rightarrow> [])"

definition getPartitionKey :: "Table \<Rightarrow> string" where
  "getPartitionKey t = getKeyName (keySchema t) HASH"

definition getSortKey :: "Table \<Rightarrow> string" where
  "getSortKey t = getKeyName (keySchema t) RANGE"

datatype PutWriteOptions = Always | Exists | NotExists

text \<open>
  \<open>Table.BaseOptions\<close> with the \<open>writeOptions\<close> of \<open>PutOptions\<close>; \<open>context\<close> is never
  read. A field that is \<open>None\<close> is absent; an absent \<open>options\<close> argument is \<open>{}\<close>.
\<close>

record Options =
  attributes :: "ExpressionAttributes option"
  conditions :: "Resolver list option"
  params :: "Params option"
  writeOptions :: "PutWriteOptions option"

definition noOptions :: Options where
  "noOptions = \<lparr> attributes = None, conditions = None, params = None, writeOptions = None \<rparr>"

text \<open>The spread \<open>...options.params\<close> into a fresh object.\<close>

definition spread :: "Params option \<Rightarrow> Params" where
  "spread ps = (case ps of None \<Rightarrow> emptyParams | Some p \<Rightarrow> p)"

text \<open>\<open>options.attributes || new ExpressionAttributes()\<close>.\<close>

definition attributesOr :: "ExpressionAttributes option \<Rightarrow> ExpressionAttributes" where
  "attributesOr a = (case a of None \<Rightarrow> newExpressionAttributes | Some e \<Rightarrow> e)"

definition getParams :: "Table \<Rightarrow> AttributeValuesMap \<Rightarrow> Options \<Rightarrow> Params" where
  "getParams t key opts = (spread (params opts))\<lparr>TableName := Some (name t), Key := Some key\<rparr>"

text \<open>
  The three builders below also write into the caller's \<open>options.attributes\<close> (and
  \<open>putParams\<close> pushes onto the caller's \<open>options.conditions\<close>); what they return is the
  request object, and that is what the functions here return.
\<close>

definition deleteParams :: "Condition \<Rightarrow> Table \<Rightarrow> AttributeValuesMap \<Rightarrow> Options \<Rightarrow> Params" where
  "deleteParams C t key opts =
     (let ps = (spread (params opts))\<lparr>TableName := Some (name t), Key := Some key\<rparr>;
          e = attributesOr (attributes opts);
          (e1, ps1) = addAndParam C (conditions opts) e ps
      in addParams e1 ps1)"

definition getPutCondition :: "Condition \<Rightarrow> Table \<Rightarrow> PutWriteOptions \<Rightarrow> Resolver option" where
  "getPutCondition C t w =
     (if w = Exists then Some (exists' C (getPartitionKey t))
      else if w = NotExists then Some (notExists C (getPartitionKey t))
      else None)"

definition putParams ::
  "Condition \<Rightarrow> Table \<Rightarrow> AttributeValuesMap \<Rightarrow> AttributeValuesMap option \<Rightarrow> Options \<Rightarrow> Params" where
  "putParams C t key item opts =
     (let ps = (spread (params opts))
                 \<lparr>TableName := Some (name t),
                  Item := Some (key ++ (case item of None \<Rightarrow> Map.empty | Some i \<Rightarrow> i))\<rparr>;
          conds = (case conditions opts of None \<Rightarrow> [] | Some cs \<Rightarrow> cs);
          condition = getPutCondition C t (case writeOptions opts of None \<Rightarrow> Always | Some w \<Rightarrow> w);
          conds1 = (case condition of None \<Rightarrow> conds | Some c \<Rightarrow> conds @ [c]);
          e = attributesOr (attributes opts);
          (e1, ps1) = addAndParam C (Some conds1) e ps
      in addParams e1 ps1)"

definition updateParams ::
  "Condition \<Rightarrow> Table \<Rightarrow> AttributeValuesMap \<Rightarrow> (string \<times> Directive) list option \<Rightarrow> Options \<Rightarrow>
   Params" where
  "updateParams C t key item opts =
     (let ps = (spread (params opts))\<lparr>TableName := Some (name t), Key := Some key\<rparr>;
          e = attributesOr (attributes opts);
          (e1, ps1) = Update_addParam item e ps;
          (e2, ps2) = addAndParam C (conditions opts) e1 ps1
      in addParams e2 ps2)"

text \<open>
  An instance of the \<open>Condition\<close> parameters, used where a builder is evaluated at a
  concrete request: attribute tests in DynamoDB's condition grammar, joined with \<open>AND\<close>.
\<close>

fun resolveAll :: "Resolver list \<Rightarrow> ExpressionAttributes \<Rightarrow> string list \<times> ExpressionAttributes" where
  "resolveAll [] e = ([], e)"
| "resolveAll (c # cs) e =
     (let (x, e1) = c e; (xs, e2) = resolveAll cs e1 in (x # xs, e2))"

definition attributeTest :: "string \<Rightarrow> string \<Rightarrow> Resolver" where
  "attributeTest fn n e = (let (a, e1) = addPath e n in (fn @ ''('' @ a @ '')'', e1))"

definition joinAnd :: "Resolver list \<Rightarrow> Resolver" where
  "joinAnd cs e = (let (xs, e1) = resolveAll cs e in (join '' AND '' xs, e1))"

definition plainCondition :: Condition where
  "plainCondition =
     \<lparr> exists' = attributeTest ''attribute_exists'',
       notExists = attributeTest ''attribute_not_exists'',
       andResolver = joinAnd \<rparr>"

definition mainTable :: Table where
  "mainTable = \<lparr> name = ''MainTable'', keySchema = [(''P'', HASH), (''S'', RANGE)] \<rparr>"

section \<open>Model\<close>

text \<open>
  Of a \<open>Model\<close> only its table is read here; its \<open>schema\<close> is a map of \<open>Fields.Field\<close>
  objects, and \<open>Fields.ts\<close> is not under \<open>src/\<close>.
\<close>

record Model =
  table :: Table

text \<open>
  The members of \<open>Object.prototype\<close>, which every object literal inherits: those of the
  language standard and of its annex B.
\<close>

definition objectPrototype :: "string list" where
  "objectPrototype =
     [''constructor'', ''hasOwnProperty'', ''isPrototypeOf'', ''propertyIsEnumerable'',
      ''toLocaleString'', ''toString'', ''valueOf'', ''__proto__'', ''__defineGetter__'',
      ''__defineSetter__'', ''__lookupGetter__'', ''__lookupSetter__'']"

text \<open>
  The read \<open>data[name]\<close> of an object literal: its own property if it has one, else the
  inherited member if \<open>Object.prototype\<close> has one of that name, else \<open>undefined\<close>.
\<close>

definition getProperty :: "AttributeValuesMap \<Rightarrow> string \<Rightarrow> AttributeValues" where
  "getProperty data n =
     (case data n of
        Some v \<Rightarrow> v
      | None \<Rightarrow> if n \<in> set objectPrototype then Inherited n else Undefined)"

text \<open>
  The write \<open>key[name] = v\<close>: a property of \<open>key\<close>'s own, except for \<open>__proto__\<close>, where
  the inherited setter runs and \<open>key\<close> gets no property.
\<close>

definition setProperty :: "AttributeValuesMap \<Rightarrow> string \<Rightarrow> AttributeValues \<Rightarrow> AttributeValuesMap" where
  "setProperty obj n v = (if n = ''__proto__'' then obj else obj(n \<mapsto> v))"

text \<open>
  \<open>Model.splitTableData\<close>. The flat attribute map is a map from attribute name to value,
  the properties of its own; \<open>{ ...data }\<close> copies exactly these. The result
  \<open>{ key, item }\<close> is the pair of the two maps. The loop body:
\<close>

definition splitStep ::
  "AttributeValuesMap \<Rightarrow> string \<Rightarrow> AttributeValuesMap \<times> AttributeValuesMap \<Rightarrow>
   AttributeValuesMap \<times> AttributeValuesMap" where
  "splitStep data n ki =
     (if getProperty data n = Undefined then ki
      else (setProperty (fst ki) n (getProperty data n), (snd ki)(n := None)))"

definition splitTableData :: "Model \<Rightarrow> AttributeValuesMap \<Rightarrow> AttributeValuesMap \<times> AttributeValuesMap" where
  "splitTableData m data =
     fold (splitStep data) (map fst (keySchema (table m))) (Map.empty, data)"

text \<open>
  An entry of the flat map that belongs in the key map: its name is a key of the table's
  \<open>keySchema\<close> and its value is defined.
\<close>

definition isKeyAttribute :: "Model \<Rightarrow> AttributeValuesMap \<Rightarrow> string \<Rightarrow> bool" where
  "isKeyAttribute m data n =
     (n \<in> set (map fst (keySchema (table m))) \<and> data n \<noteq> None \<and> data n \<noteq> Some Undefined)"

text \<open>No key of the table's \<open>keySchema\<close> is the name of a member of \<open>Object.prototype\<close>.\<close>

definition plainKeys :: "Model \<Rightarrow> bool" where
  "plainKeys m = (set (map fst (keySchema (table m))) \<inter> set objectPrototype = {})"

text \<open>A table whose partition key is the attribute \<open>constructor\<close>.\<close>

definition constructorTable :: Table where
  "constructorTable = \<lparr> name = ''MainTable'', keySchema = [(''constructor'', HASH)] \<rparr>"

text \<open>
  \<open>Model.putParams\<close> from the point where the loop over the fields has filled the flat
  attribute map \<open>tableData\<close>: split it, and hand key and item to the table.
\<close>

definition putParamsOf :: "Condition \<Rightarrow> Model \<Rightarrow> AttributeValuesMap \<Rightarrow> Options \<Rightarrow> Params" where
  "putParamsOf C m tableData opts =
     (let (key, item) = splitTableData m tableData
      in putParams C (table m) key (Some item) opts)"

section \<open>Split-key fields\<close>

text \<open>
  Modelled from the spec: \<open>Fields.ts\<close> (\<open>Schema.split\<close>) is not under \<open>src/\<close>. Section 4.3 of
  the specification, for a split-key field with two table attributes and a
  one-character separator: \<open>project\<close> splits the model string by the separator; one
  token is written to the first attribute only; with two or more tokens all but the last,
  joined with the separator, go to the first attribute and the last token to the second.
  \<open>extract\<close> reads whichever of the two attributes are present as strings, in order, and
  joins them with the separator; with neither present the model field is absent.
  \<open>projectSplit\<close> and \<open>extractSplit\<close> are the specification's \<open>project\<close> and \<open>extract\<close>
  of this variant.
\<close>

record SplitField =
  attribute1 :: string
  attribute2 :: string
  separator :: char

text \<open>
  Modelled from the spec: \<open>project\<close> of a split-key field (section 4.3); it returns the
  attributes it writes, in writing order.
\<close>

definition projectSplit :: "SplitField \<Rightarrow> string \<Rightarrow> (string \<times> AttributeValues) list" where
  "projectSplit f s =
     (let tokens = split (separator f) s
      in if length tokens = 1 then [(attribute1 f, StringValue (hd tokens))]
         else [(attribute1 f, StringValue (join [separator f] (butlast tokens))),
               (attribute2 f, StringValue (last tokens))])"

definition stringOf :: "AttributeValues option \<Rightarrow> string list" where
  "stringOf v = (case v of Some (StringValue s) \<Rightarrow> [s] | _ \<Rightarrow> [])"

text \<open>
  Modelled from the spec: \<open>extract\<close> of a split-key field (section 4.3).
\<close>

definition extractSplit :: "SplitField \<Rightarrow> AttributeValuesMap \<Rightarrow> string option" where
  "extractSplit f data =
     (let parts = stringOf (data (attribute1 f)) @ stringOf (data (attribute2 f))
      in if parts = [] then None else Some (join [separator f] parts))"

text \<open>The attribute map holding exactly what a projection wrote, later writes winning.\<close>

definition written :: "(string \<times> AttributeValues) list \<Rightarrow> AttributeValuesMap" where
  "written kvs = map_of (rev kvs)"

section \<open>Properties of ExpressionAttributes\<close>

subsection \<open>Strings and counters\<close>

lemma digit_inj: "a < 10 \<Longrightarrow> b < 10 \<Longrightarrow> digit a = digit b \<Longrightarrow> a = b"
proof -
  assume a: "a < 10" and b: "b < 10" and e: "digit a = digit b"
  have d: "distinct ''0123456789''" by simp
  have "length ''0123456789'' = 10" by simp
  with a b e d show "a = b" unfolding digit_def
    by (metis nth_eq_iff_index_eq)
qed

lemma toString_nonempty: "toString n \<noteq> []"
  by (subst toString.simps) simp

lemma toString_inj: "toString a = toString b \<Longrightarrow> a = b"
proof (induction a arbitrary: b rule: toString.induct)
  case (1 n)
  show ?case
  proof (cases "n < 10")
    case True
    then have tn: "toString n = [digit n]" by (subst toString.simps) simp
    show ?thesis
    proof (cases "b < 10")
      case True
      then have "toString b = [digit b]" by (subst toString.simps) simp
      with tn "1.prems" \<open>n < 10\<close> True show ?thesis by (auto dest: digit_inj)
    next
      case False
      then have "toString b = toString (b div 10) @ [digit (b mod 10)]"
        by (subst toString.simps) simp
      with tn "1.prems" toString_nonempty [of "b div 10"] show ?thesis by (cases "toString (b div 10)") auto
    qed
  next
    case False
    then have tn: "toString n = toString (n div 10) @ [digit (n mod 10)]"
      by (subst toString.simps) simp
    show ?thesis
    proof (cases "b < 10")
      case True
      then have "toString b = [digit b]" by (subst toString.simps) simp
      with tn "1.prems" toString_nonempty [of "n div 10"] show ?thesis by (cases "toString (n div 10)") auto
    next
      case b: False
      then have "toString b = toString (b div 10) @ [digit (b mod 10)]"
        by (subst toString.simps) simp
      with tn "1.prems" have e1: "toString (n div 10) = toString (b div 10)"
        and e2: "digit (n mod 10) = digit (b mod 10)" by auto
      from "1.IH" [OF False e1] have "n div 10 = b div 10" .
      moreover from e2 have "n mod 10 = b mod 10" by (intro digit_inj) auto
      ultimately show ?thesis by (metis div_mult_mod_eq)
    qed
  qed
qed

lemma toString_0: "toString 0 = ''0''" by (simp add: toString.simps digit_def)

lemma toString_Suc0: "toString (Suc 0) = ''1''" by (simp add: toString.simps digit_def)

lemma join_split: "join [c] (split c s) = s"
proof (induction s)
  case Nil
  then show ?case by simp
next
  case (Cons x xs)
  then show ?case by (cases "split c xs"; cases "tl (split c xs)") (auto split: list.splits)
qed

lemma update_fresh: "k \<notin> fst ` set al \<Longrightarrow> AList.update k v al = al @ [(k, v)]"
  by (induction al) auto

lemma findKey_None: "findKey ns n = None \<longleftrightarrow> n \<notin> snd ` set ns"
  by (induction ns) (auto simp: findKey_def)

lemma findKey_mem: "findKey ns n = Some a \<Longrightarrow> (a, n) \<in> set ns"
  by (induction ns) (auto simp: findKey_def split: if_splits)

lemma findKey_append: "findKey ns n = Some a \<Longrightarrow> findKey (ns @ xs) n = Some a"
  by (induction ns) (auto simp: findKey_def split: if_splits)

lemma findKey_snoc: "n \<notin> snd ` set ns \<Longrightarrow> findKey (ns @ [(a, n)]) n = Some a"
  by (induction ns) (auto simp: findKey_def)

lemma aliasOf_stable:
  assumes "n \<in> snd ` set ns" and "prefix ns ns'"
  shows "aliasOf ns' n = aliasOf ns n"
proof -
  from assms(1) obtain a where a: "findKey ns n = Some a"
    using findKey_None [of ns n] by (cases "findKey ns n") auto
  from assms(2) obtain xs where "ns' = ns @ xs" by (auto simp: prefix_def)
  with a show ?thesis by (simp add: aliasOf_def findKey_append)
qed

lemma name_alias_fresh:
  assumes "map fst ns = map (\<lambda>k. ''#n'' @ toString k) [0..<m]"
  shows "''#n'' @ toString m \<notin> fst ` set ns"
proof
  assume "''#n'' @ toString m \<in> fst ` set ns"
  then have "''#n'' @ toString m \<in> set (map fst ns)" by simp
  with assms obtain k where "k < m" "''#n'' @ toString m = ''#n'' @ toString k" by auto
  then show False by (auto dest: toString_inj)
qed

lemma addName_ok:
  assumes ok: "namesOK e" and run: "addName e n = (a, e')"
  shows "namesOK e' \<and> treatNameAsPath e' = treatNameAsPath e \<and>
    prefix (names e) (names e') \<and> findKey (names e') n = Some a \<and>
    snd ` set (names e') = insert n (snd ` set (names e)) \<and>
    values' e' = values' e \<and> nextValue e' = nextValue e"
proof -
  from ok have res: "\<not> isReservedName e n" and val: "\<not> isValidName e n"
    and keys: "map fst (names e) = map (\<lambda>k. ''#n'' @ toString k) [0..<nextName e]"
    and dist: "distinct (map snd (names e))"
    by (simp_all add: namesOK_def)
  show ?thesis
  proof (cases "findKey (names e) n")
    case None
    let ?k = "''#n'' @ toString (nextName e)"
    from keys have fresh: "?k \<notin> fst ` set (names e)" by (rule name_alias_fresh)
    from None have new: "n \<notin> snd ` set (names e)" by (simp add: findKey_None)
    from fresh have upd: "AList.update ?k n (names e) = names e @ [(?k, n)]"
      by (rule update_fresh)
    from run res val None upd have a: "a = ?k"
      and e': "e' = e\<lparr>names := names e @ [(?k, n)], nextName := nextName e + 1\<rparr>"
      by (auto simp: addName_def Let_def)
    from ok keys dist new have "namesOK e'" by (simp add: e' namesOK_def)
    moreover from new have "findKey (names e') n = Some a" by (simp add: e' a findKey_snoc)
    moreover have "snd ` set (names e') = insert n (snd ` set (names e))" by (auto simp: e')
    ultimately show ?thesis by (simp add: e')
  next
    case (Some key)
    with run res val have a: "a = key" and e': "e' = e" by (auto simp: addName_def)
    from findKey_mem [OF Some] have "snd ` set (names e') = insert n (snd ` set (names e))"
      by (force simp: e')
    with ok Some show ?thesis by (simp add: e' a)
  qed
qed

subsection \<open>Paths\<close>

lemma indexOf_found:
  "c \<in> set s \<Longrightarrow> indexOf s c = int (length (takeWhile (\<lambda>x. x \<noteq> c) s))"
  by (induction s) (auto simp: Let_def)

lemma indexOf_missing: "c \<notin> set s \<Longrightarrow> indexOf s c = -1"
proof (induction s)
  case Nil
  show ?case by simp
next
  case (Cons x xs)
  then have "x \<noteq> c" and "indexOf xs c = -1" by auto
  then show ?case by (simp add: Let_def)
qed

lemma substring_namePart:
  assumes "CHR ''['' \<in> set cur"
  shows "substring cur 0 (indexOf cur CHR ''['') = namePart cur"
    and "substringFrom cur (indexOf cur CHR ''['') = bracketSuffix cur"
proof -
  let ?k = "length (takeWhile (\<lambda>x. x \<noteq> CHR ''['') cur)"
  from assms have i: "indexOf cur CHR ''['' = int ?k" by (rule indexOf_found)
  have le: "?k \<le> length cur" by (rule length_takeWhile_le)
  then have c: "clamp cur (int ?k) = ?k" by (simp add: clamp_def)
  have c0: "clamp cur 0 = 0" by (simp add: clamp_def)
  show "substring cur 0 (indexOf cur CHR ''['') = namePart cur"
    by (simp add: substring_def i c c0 namePart_def takeWhile_eq_take [symmetric] Let_def)
  show "substringFrom cur (indexOf cur CHR ''['') = bracketSuffix cur"
    by (simp add: substringFrom_def i c bracketSuffix_def dropWhile_eq_drop [symmetric])
qed

lemma addSegment_refines:
  assumes "endsWith cur CHR '']'' \<longrightarrow> CHR ''['' \<in> set cur"
  shows "addSegment e cur = specSegment e cur"
proof (cases "endsWith cur CHR '']''")
  case True
  with assms have "CHR ''['' \<in> set cur" by simp
  from substring_namePart [OF this] True show ?thesis
    by (simp add: addSegment_def specSegment_def Let_def)
next
  case False
  then show ?thesis by (simp add: addSegment_def specSegment_def)
qed

lemma addSegments_refines:
  assumes "list_all (\<lambda>cur. endsWith cur CHR '']'' \<longrightarrow> CHR ''['' \<in> set cur) segs"
  shows "addSegments e segs = specSegments e segs"
  using assms by (induction segs arbitrary: e) (simp_all add: addSegment_refines)

text \<open>
  The part of claim C6 that holds: on every path in which each segment that ends in
  \<open>]\<close> also contains a \<open>[\<close>, \<open>addPath\<close> is the specification's rule: split on \<open>.\<close>,
  alias the name part before the first \<open>[\<close>, append the bracket suffix, join with \<open>.\<close>;
  and with \<open>treatNameAsPath\<close> off the whole string is one name.
\<close>

lemma addPath_refines:
  assumes "bracketsOpened p"
  shows "addPath e p = specPath e p"
  using assms by (simp add: addPath_def specPath_def bracketsOpened_def addSegments_refines)

lemma addPath_refines_example:
  "bracketsOpened ''list[0].a'' \<and>
   addPath newExpressionAttributes ''list[0].a'' =
     (''#n0[0].#n1'',
      newExpressionAttributes\<lparr>names := [(''#n0'', ''list''), (''#n1'', ''a'')], nextName := 2\<rparr>)"
  by (simp add: bracketsOpened_def endsWith_def newExpressionAttributes_def addPath_def
      addSegment_def addName_def findKey_def substring_def substringFrom_def clamp_def Let_def
      toString_0 toString_Suc0)

text \<open>
  Claim C6 at the path \<open>a]\<close>, whose only segment ends in \<open>]\<close> and has no \<open>[\<close>.
  \<open>indexOf\<close> is \<open>-1\<close> there, so the source aliases the empty string and appends the whole
  segment, unaliased; the specification's rule aliases the segment.
\<close>

theorem addPath_unopened_bracket:
  "addPath newExpressionAttributes ''a]'' =
     (''#n0a]'', newExpressionAttributes\<lparr>names := [(''#n0'', '''')], nextName := 1\<rparr>) \<and>
   specPath newExpressionAttributes ''a]'' =
     (''#n0'', newExpressionAttributes\<lparr>names := [(''#n0'', ''a]'')], nextName := 1\<rparr>)"
  by (simp add: newExpressionAttributes_def addPath_def specPath_def addSegment_def
      specSegment_def addName_def findKey_def endsWith_def substring_def substringFrom_def
      clamp_def namePart_def bracketSuffix_def Let_def toString_0)

subsection \<open>Names\<close>

lemma specSegment_ok:
  assumes ok: "namesOK e" and run: "specSegment e cur = (a, e')"
  shows "namesOK e' \<and> treatNameAsPath e' = treatNameAsPath e \<and>
    prefix (names e) (names e') \<and>
    a = aliasOf (names e') (rawName cur) @ rawSuffix cur \<and>
    snd ` set (names e') = insert (rawName cur) (snd ` set (names e))"
proof -
  from run obtain b where b: "addName e (rawName cur) = (b, e')" and a: "a = b @ rawSuffix cur"
    by (auto simp: specSegment_def rawName_def rawSuffix_def Let_def split: if_splits prod.splits)
  from addName_ok [OF ok b] a show ?thesis by (simp add: aliasOf_def)
qed

lemma specSegments_ok:
  assumes "namesOK e" and "specSegments e segs = (as, e')"
  shows "namesOK e' \<and> treatNameAsPath e' = treatNameAsPath e \<and>
    prefix (names e) (names e') \<and>
    as = map (\<lambda>cur. aliasOf (names e') (rawName cur) @ rawSuffix cur) segs \<and>
    snd ` set (names e') = rawName ` set segs \<union> snd ` set (names e)"
  using assms
proof (induction segs arbitrary: e as)
  case Nil
  then show ?case by simp
next
  case (Cons cur rest)
  from Cons.prems(2) obtain a e1 bs where
    s1: "specSegment e cur = (a, e1)" and s2: "specSegments e1 rest = (bs, e')"
    and as: "as = a # bs"
    by (auto split: prod.splits)
  note h1 = specSegment_ok [OF Cons.prems(1) s1]
  from h1 have ok1: "namesOK e1" by simp
  note h2 = Cons.IH [OF ok1 s2]
  from h1 have mem: "rawName cur \<in> snd ` set (names e1)" by simp
  from h2 have "prefix (names e1) (names e')" by simp
  with mem have "aliasOf (names e') (rawName cur) = aliasOf (names e1) (rawName cur)"
    by (rule aliasOf_stable)
  with h1 have "a = aliasOf (names e') (rawName cur) @ rawSuffix cur" by simp
  moreover from h1 h2 have "prefix (names e) (names e')" by (auto intro: prefix_order.trans)
  moreover from h1 h2 have "snd ` set (names e') = rawName ` set (cur # rest) \<union> snd ` set (names e)"
    by auto
  ultimately show ?case using h1 h2 as by simp
qed

lemma specPath_ok:
  assumes ok: "namesOK e" and run: "specPath e p = (a, e')"
  shows "namesOK e' \<and> treatNameAsPath e' = treatNameAsPath e \<and>
    prefix (names e) (names e') \<and>
    a = aliasedPath (aliasOf (names e')) (treatNameAsPath e) p \<and>
    snd ` set (names e') = set (rawNames (treatNameAsPath e) (AddPath p)) \<union> snd ` set (names e)"
proof (cases "treatNameAsPath e")
  case True
  with run obtain as where s: "specSegments e (split CHR ''.'' p) = (as, e')"
    and a: "a = join ''.'' as"
    by (auto simp: specPath_def split: prod.splits)
  from specSegments_ok [OF ok s] a True show ?thesis by (simp add: aliasedPath_def)
next
  case False
  with run have "addName e p = (a, e')" by (simp add: specPath_def)
  from addName_ok [OF ok this] False show ?thesis by (simp add: aliasedPath_def aliasOf_def)
qed

lemma addPath_opened:
  assumes "opened (treatNameAsPath e) (AddPath p)"
  shows "addPath e p = specPath e p"
proof (cases "treatNameAsPath e")
  case True
  with assms have "bracketsOpened p" by simp
  then show ?thesis by (rule addPath_refines)
next
  case False
  then show ?thesis by (simp add: addPath_def specPath_def)
qed

lemma addValue_names:
  assumes "addValue e v = (a, e')"
  shows "names e' = names e \<and> nextName e' = nextName e \<and> isReservedName e' = isReservedName e \<and>
    isValidName e' = isValidName e \<and> treatNameAsPath e' = treatNameAsPath e"
  using assms by (auto simp: addValue_def Let_def)

lemma doRequest_ok:
  assumes ok: "namesOK e" and op: "opened (treatNameAsPath e) r" and run: "doRequest e r = (a, e')"
  shows "namesOK e' \<and> treatNameAsPath e' = treatNameAsPath e \<and>
    prefix (names e) (names e') \<and>
    answer (aliasOf (names e')) (treatNameAsPath e) r a \<and>
    snd ` set (names e') = set (rawNames (treatNameAsPath e) r) \<union> snd ` set (names e)"
proof (cases r)
  case (AddName n)
  with run have "addName e n = (a, e')" by simp
  from addName_ok [OF ok this] AddName show ?thesis by (simp add: aliasOf_def)
next
  case (AddPath p)
  with op have "addPath e p = specPath e p" by (simp only: addPath_opened)
  with run AddPath have "specPath e p = (a, e')" by simp
  from specPath_ok [OF ok this] AddPath show ?thesis by simp
next
  case (AddValue v)
  with run have "addValue e v = (a, e')" by simp
  from addValue_names [OF this] ok AddValue show ?thesis by (simp add: namesOK_def)
qed

lemma answer_stable:
  assumes "answer (aliasOf ns) t r a" and "set (rawNames t r) \<subseteq> snd ` set ns" and "prefix ns ns'"
  shows "answer (aliasOf ns') t r a"
proof (cases r)
  case (AddName n)
  with assms aliasOf_stable [of n ns ns'] show ?thesis by simp
next
  case (AddPath p)
  show ?thesis
  proof (cases t)
    case True
    with assms(2) AddPath have "\<forall>cur \<in> set (split CHR ''.'' p). rawName cur \<in> snd ` set ns"
      by auto
    with assms(3) have "\<forall>cur \<in> set (split CHR ''.'' p).
        aliasOf ns' (rawName cur) = aliasOf ns (rawName cur)"
      by (auto intro: aliasOf_stable)
    then have M: "map (\<lambda>cur. aliasOf ns' (rawName cur) @ rawSuffix cur) (split CHR ''.'' p)
        = map (\<lambda>cur. aliasOf ns (rawName cur) @ rawSuffix cur) (split CHR ''.'' p)"
      by simp
    from assms(1) AddPath True show ?thesis
      by (simp only: answer.simps aliasedPath_def M if_True)
  next
    case False
    with assms AddPath aliasOf_stable [of p ns ns'] show ?thesis by (simp add: aliasedPath_def)
  qed
next
  case (AddValue v)
  then show ?thesis by simp
qed

lemma doRequests_ok:
  assumes "namesOK e" and "list_all (opened (treatNameAsPath e)) rs"
    and "doRequests e rs = (outs, e')"
  shows "namesOK e' \<and> treatNameAsPath e' = treatNameAsPath e \<and>
    prefix (names e) (names e') \<and>
    list_all2 (answer (aliasOf (names e')) (treatNameAsPath e)) rs outs \<and>
    snd ` set (names e') = set (concat (map (rawNames (treatNameAsPath e)) rs)) \<union> snd ` set (names e)"
  using assms
proof (induction rs arbitrary: e outs)
  case Nil
  then show ?case by simp
next
  case (Cons r rs)
  from Cons.prems(3) obtain a e1 bs where
    s1: "doRequest e r = (a, e1)" and s2: "doRequests e1 rs = (bs, e')"
    and outs: "outs = a # bs"
    by (auto split: prod.splits)
  from Cons.prems(2) have o1: "opened (treatNameAsPath e) r"
    and o2: "list_all (opened (treatNameAsPath e)) rs" by simp_all
  note h1 = doRequest_ok [OF Cons.prems(1) o1 s1]
  from h1 have ok1: "namesOK e1" and t1: "treatNameAsPath e1 = treatNameAsPath e" by simp_all
  from o2 t1 have o2': "list_all (opened (treatNameAsPath e1)) rs" by simp
  note h2 = Cons.IH [OF ok1 o2' s2]
  from h1 have "answer (aliasOf (names e1)) (treatNameAsPath e) r a"
    and "set (rawNames (treatNameAsPath e) r) \<subseteq> snd ` set (names e1)" by auto
  moreover from h2 have "prefix (names e1) (names e')" by simp
  ultimately have "answer (aliasOf (names e')) (treatNameAsPath e) r a"
    by (rule answer_stable)
  moreover from h1 h2 have "prefix (names e) (names e')" by (auto intro: prefix_order.trans)
  moreover from h1 h2 have "snd ` set (names e') =
      set (concat (map (rawNames (treatNameAsPath e)) (r # rs))) \<union> snd ` set (names e)"
    by auto
  ultimately show ?case using h1 h2 outs by simp
qed

lemma namesOK_distinct_keys: "namesOK e \<Longrightarrow> distinct (map fst (names e))"
proof -
  assume "namesOK e"
  then have k: "map fst (names e) = map (\<lambda>k. ''#n'' @ toString k) [0..<nextName e]"
    by (simp add: namesOK_def)
  have "inj (\<lambda>k. ''#n'' @ toString k)" by (auto intro!: injI dest: toString_inj)
  then have "distinct (map (\<lambda>k. ''#n'' @ toString k) [0..<nextName e])"
    by (simp add: distinct_map inj_on_def)
  with k show ?thesis by simp
qed

lemma distinct_snd_unique:
  "distinct (map snd xs) \<Longrightarrow> (a, n) \<in> set xs \<Longrightarrow> (b, n) \<in> set xs \<Longrightarrow> a = b"
  by (induction xs) force+

text \<open>
  Name dedup where it holds. Take an instance with the default predicates and no names
  yet, and make any sequence of requests on it in which every path opens the brackets
  its segments close. Then every raw attribute name the requests referred to, as a whole
  name or as the name part of any segment of any path, has exactly one alias in the
  exported names map; the map holds nothing else and no alias twice; and every request
  returned its name or path with each raw name replaced by that one alias.
\<close>

lemma name_dedup_opened:
  assumes "isReservedName e = (\<lambda>_. False)" and "isValidName e = (\<lambda>_. False)"
    and "names e = []" and "nextName e = 0"
    and "list_all (opened (treatNameAsPath e)) rs"
    and "doRequests e rs = (outs, e')"
  shows "(\<forall>n \<in> set (concat (map (rawNames (treatNameAsPath e)) rs)).
            \<exists>!a. (a, n) \<in> set (getPaths e')) \<and>
         (\<forall>a n. (a, n) \<in> set (getPaths e') \<longrightarrow>
            n \<in> set (concat (map (rawNames (treatNameAsPath e)) rs)) \<and> aliasOf (getPaths e') n = a) \<and>
         distinct (map fst (getPaths e')) \<and>
         (\<forall>i < length rs. \<forall>n. rs ! i = AddName n \<longrightarrow> outs ! i = aliasOf (getPaths e') n) \<and>
         (\<forall>i < length rs. \<forall>p. rs ! i = AddPath p \<longrightarrow>
            outs ! i = aliasedPath (aliasOf (getPaths e')) (treatNameAsPath e) p)"
proof -
  let ?t = "treatNameAsPath e"
  let ?raw = "set (concat (map (rawNames ?t) rs))"
  from assms(1-4) have ok: "namesOK e" by (simp add: namesOK_def)
  note h = doRequests_ok [OF ok assms(5) assms(6)]
  from h have ok': "namesOK e'" and raw: "snd ` set (names e') = ?raw"
    and all: "list_all2 (answer (aliasOf (names e')) ?t) rs outs"
    using assms(3) by simp_all
  from ok' have dist: "distinct (map snd (names e'))" by (simp add: namesOK_def)
  have uniq: "a = b" if "(a, n) \<in> set (names e')" "(b, n) \<in> set (names e')" for a b n
    using dist that by (rule distinct_snd_unique)
  have lookup: "aliasOf (names e') n = a" if m: "(a, n) \<in> set (names e')" for a n
  proof -
    from m have "n \<in> snd ` set (names e')" by force
    then obtain b where b: "findKey (names e') n = Some b"
      using findKey_None [of "names e'" n] by (cases "findKey (names e') n") auto
    from findKey_mem [OF b] m have "b = a" by (rule uniq)
    with b show ?thesis by (simp add: aliasOf_def)
  qed
  have 1: "\<forall>n \<in> ?raw. \<exists>!a. (a, n) \<in> set (getPaths e')"
  proof
    fix n assume "n \<in> ?raw"
    with raw have "n \<in> snd ` set (names e')" by simp
    then obtain a where "(a, n) \<in> set (names e')" by force
    with uniq show "\<exists>!a. (a, n) \<in> set (getPaths e')" unfolding getPaths_def by blast
  qed
  have 2: "\<forall>a n. (a, n) \<in> set (getPaths e') \<longrightarrow> n \<in> ?raw \<and> aliasOf (getPaths e') n = a"
  proof (intro allI impI)
    fix a n assume m: "(a, n) \<in> set (getPaths e')"
    then have "n \<in> snd ` set (names e')" by (force simp: getPaths_def)
    with raw have "n \<in> ?raw" by simp
    moreover from m have "aliasOf (getPaths e') n = a" by (simp add: getPaths_def lookup)
    ultimately show "n \<in> ?raw \<and> aliasOf (getPaths e') n = a" ..
  qed
  have 3: "distinct (map fst (getPaths e'))"
    using namesOK_distinct_keys [OF ok'] by (simp add: getPaths_def)
  have 4: "\<forall>i < length rs. \<forall>n. rs ! i = AddName n \<longrightarrow> outs ! i = aliasOf (getPaths e') n"
  proof (intro allI impI)
    fix i n assume "i < length rs" "rs ! i = AddName n"
    with list_all2_nthD [OF all, of i] show "outs ! i = aliasOf (getPaths e') n"
      by (simp add: getPaths_def)
  qed
  have 5: "\<forall>i < length rs. \<forall>p. rs ! i = AddPath p \<longrightarrow>
      outs ! i = aliasedPath (aliasOf (getPaths e')) ?t p"
  proof (intro allI impI)
    fix i p assume "i < length rs" "rs ! i = AddPath p"
    with list_all2_nthD [OF all, of i] show "outs ! i = aliasedPath (aliasOf (getPaths e')) ?t p"
      by (simp add: getPaths_def)
  qed
  from 1 2 3 4 5 show ?thesis by (intro conjI)
qed

lemma name_dedup_opened_example:
  "doRequests newExpressionAttributes [AddPath ''a.b[0].a'', AddName ''b''] =
     ([''#n0.#n1[0].#n0'', ''#n1''],
      newExpressionAttributes\<lparr>names := [(''#n0'', ''a''), (''#n1'', ''b'')], nextName := 2\<rparr>) \<and>
   (\<exists>!a. (a, ''a'') \<in> set [(''#n0'', ''a''), (''#n1'', ''b'')]) \<and>
   (\<exists>!a. (a, ''b'') \<in> set [(''#n0'', ''a''), (''#n1'', ''b'')]) \<and>
   ''#n0.#n1[0].#n0'' =
     aliasedPath (aliasOf [(''#n0'', ''a''), (''#n1'', ''b'')]) True ''a.b[0].a'' \<and>
   ''#n1'' = aliasOf [(''#n0'', ''a''), (''#n1'', ''b'')] ''b''"
proof -
  let ?e = "newExpressionAttributes"
  let ?rs = "[AddPath ''a.b[0].a'', AddName ''b'']"
  let ?outs = "[''#n0.#n1[0].#n0'', ''#n1'']"
  let ?e' = "newExpressionAttributes\<lparr>names := [(''#n0'', ''a''), (''#n1'', ''b'')], nextName := 2\<rparr>"
  have run: "doRequests ?e ?rs = (?outs, ?e')"
    by (simp add: newExpressionAttributes_def addPath_def addSegment_def addName_def
      endsWith_def findKey_def substring_def substringFrom_def clamp_def Let_def toString_0 toString_Suc0)
  have p: "isReservedName ?e = (\<lambda>_. False)" "isValidName ?e = (\<lambda>_. False)"
    "names ?e = []" "nextName ?e = 0"
    by (simp_all add: newExpressionAttributes_def)
  have o: "list_all (opened (treatNameAsPath ?e)) ?rs"
    by (simp add: newExpressionAttributes_def bracketsOpened_def endsWith_def)
  note h = name_dedup_opened [OF p o run]
  have t: "treatNameAsPath ?e = True" by (simp add: newExpressionAttributes_def)
  have raw: "set (concat (map (rawNames True) ?rs)) = {''a'', ''b''}"
    by (auto simp: rawName_def namePart_def endsWith_def)
  have gp: "getPaths ?e' = [(''#n0'', ''a''), (''#n1'', ''b'')]" by (simp add: getPaths_def)
  from h have 1: "\<forall>n\<in>{''a'', ''b''}. \<exists>!a. (a, n) \<in> set [(''#n0'', ''a''), (''#n1'', ''b'')]"
    unfolding t raw gp by (rule conjunct1)
  from h have 4: "\<forall>i<length ?rs. \<forall>n. ?rs ! i = AddName n \<longrightarrow> ?outs ! i = aliasOf (getPaths ?e') n"
    by (elim conjE)
  from h have 5: "\<forall>i<length ?rs. \<forall>p. ?rs ! i = AddPath p \<longrightarrow> ?outs ! i = aliasedPath (aliasOf (getPaths ?e')) (treatNameAsPath ?e) p"
    by (elim conjE)
  from 4 [rule_format, of 1 "''b''"] have b4: "''#n1'' = aliasOf [(''#n0'', ''a''), (''#n1'', ''b'')] ''b''"
    unfolding gp by simp
  from 5 [rule_format, of 0 "''a.b[0].a''"]
  have b5: "''#n0.#n1[0].#n0'' = aliasedPath (aliasOf [(''#n0'', ''a''), (''#n1'', ''b'')]) True ''a.b[0].a''"
    unfolding gp t by simp
  from 1 have "\<exists>!a. (a, ''a'') \<in> set [(''#n0'', ''a''), (''#n1'', ''b'')]" by blast
  moreover from 1 have "\<exists>!a. (a, ''b'') \<in> set [(''#n0'', ''a''), (''#n1'', ''b'')]" by blast
  ultimately show ?thesis using run b4 b5 by (intro conjI)
qed

text \<open>
  Claim C1 (name dedup) at the requests \<open>addPath('a]')\<close>, \<open>addPath('b]')\<close> on a new
  instance. The raw attribute names the two paths refer to are \<open>a]\<close> and \<open>b]\<close>. Neither
  has an alias in the exported names map: the source, taking \<open>indexOf\<close>'s \<open>-1\<close> for a
  position, interns the empty string both times, and the two requests for two different
  names return the same alias \<open>#n0\<close>, each followed by its raw segment.
\<close>

theorem name_dedup_unopened_bracket:
  "doRequests newExpressionAttributes [AddPath ''a]'', AddPath ''b]''] =
     ([''#n0a]'', ''#n0b]''],
      newExpressionAttributes\<lparr>names := [(''#n0'', [])], nextName := 1\<rparr>) \<and>
   rawNames True (AddPath ''a]'') = [''a]''] \<and>
   rawNames True (AddPath ''b]'') = [''b]''] \<and>
   findKey [(''#n0'', [])] ''a]'' = None \<and>
   findKey [(''#n0'', [])] ''b]'' = None"
  by (simp add: newExpressionAttributes_def addPath_def addSegment_def addName_def findKey_def
      endsWith_def substring_def substringFrom_def clamp_def rawName_def namePart_def Let_def
      toString_0)

subsection \<open>Value aliases\<close>

lemma value_alias_fresh:
  assumes "map fst vs = map (\<lambda>k. '':v'' @ toString k) [0..<m]"
  shows "'':v'' @ toString m \<notin> fst ` set vs"
proof
  assume "'':v'' @ toString m \<in> fst ` set vs"
  then have "'':v'' @ toString m \<in> set (map fst vs)" by simp
  with assms obtain k where "k < m" "'':v'' @ toString m = '':v'' @ toString k" by auto
  then show False by (auto dest: toString_inj)
qed

lemma valuesOK_distinct_keys: "valuesOK e \<Longrightarrow> distinct (map fst (values' e))"
proof -
  assume "valuesOK e"
  then have k: "map fst (values' e) = map (\<lambda>k. '':v'' @ toString k) [0..<nextValue e]"
    by (simp add: valuesOK_def)
  have "inj (\<lambda>k. '':v'' @ toString k)" by (auto intro!: injI dest: toString_inj)
  then have "distinct (map (\<lambda>k. '':v'' @ toString k) [0..<nextValue e])"
    by (simp add: distinct_map inj_on_def)
  with k show ?thesis by simp
qed

lemma addValue_ok:
  assumes ok: "valuesOK e" and run: "addValue e v = (a, e')"
  shows "valuesOK e' \<and> a = '':v'' @ toString (nextValue e) \<and>
    nextValue e' = Suc (nextValue e) \<and> values' e' = values' e @ [(a, v)]"
proof -
  let ?k = "'':v'' @ toString (nextValue e)"
  from ok have keys: "map fst (values' e) = map (\<lambda>k. '':v'' @ toString k) [0..<nextValue e]"
    by (simp add: valuesOK_def)
  then have "?k \<notin> fst ` set (values' e)" by (rule value_alias_fresh)
  then have upd: "AList.update ?k v (values' e) = values' e @ [(?k, v)]" by (rule update_fresh)
  from run upd have a: "a = ?k"
    and e': "e' = e\<lparr>values' := values' e @ [(?k, v)], nextValue := nextValue e + 1\<rparr>"
    by (auto simp: addValue_def Let_def)
  from keys show ?thesis by (simp add: e' a valuesOK_def)
qed

lemma addName_values:
  assumes "addName e n = (a, e')"
  shows "values' e' = values' e \<and> nextValue e' = nextValue e"
  using assms by (auto simp: addName_def Let_def split: if_splits option.splits)

lemma addSegment_values:
  assumes "addSegment e cur = (a, e')"
  shows "values' e' = values' e \<and> nextValue e' = nextValue e"
  using assms addName_values
  by (fastforce simp: addSegment_def Let_def split: if_splits prod.splits)

lemma addSegments_values:
  assumes "addSegments e segs = (as, e')"
  shows "values' e' = values' e \<and> nextValue e' = nextValue e"
  using assms
proof (induction segs arbitrary: e as)
  case Nil
  then show ?case by simp
next
  case (Cons cur rest)
  from Cons.prems obtain a e1 bs where
    s1: "addSegment e cur = (a, e1)" and s2: "addSegments e1 rest = (bs, e')"
    by (auto split: prod.splits)
  from addSegment_values [OF s1] Cons.IH [OF s2] show ?case by simp
qed

lemma addPath_values:
  assumes "addPath e p = (a, e')"
  shows "values' e' = values' e \<and> nextValue e' = nextValue e"
proof (cases "treatNameAsPath e")
  case True
  with assms obtain as where "addSegments e (split CHR ''.'' p) = (as, e')"
    by (auto simp: addPath_def split: prod.splits)
  then show ?thesis by (rule addSegments_values)
next
  case False
  with assms have "addName e p = (a, e')" by (simp add: addPath_def)
  then show ?thesis by (rule addName_values)
qed

lemma doRequests_values:
  assumes "valuesOK e" and "doRequests e rs = (outs, e')"
  shows "valuesOK e' \<and> nextValue e' = nextValue e + length (filter isAddValue rs) \<and>
    prefix (values' e) (values' e') \<and>
    (\<forall>i < length rs. \<forall>v. rs ! i = AddValue v \<longrightarrow>
       outs ! i = '':v'' @ toString (nextValue e + length (filter isAddValue (take i rs))) \<and>
       (outs ! i, v) \<in> set (values' e'))"
  using assms
proof (induction rs arbitrary: e outs)
  case Nil
  then show ?case by simp
next
  case (Cons r rs)
  from Cons.prems(2) obtain a e1 bs where
    s1: "doRequest e r = (a, e1)" and s2: "doRequests e1 rs = (bs, e')"
    and outs: "outs = a # bs"
    by (auto split: prod.splits)
  have h1: "valuesOK e1 \<and> nextValue e1 = nextValue e + (if isAddValue r then 1 else 0) \<and>
    prefix (values' e) (values' e1) \<and>
    (\<forall>v. r = AddValue v \<longrightarrow> a = '':v'' @ toString (nextValue e) \<and> (a, v) \<in> set (values' e1))"
  proof (cases r)
    case (AddName n)
    with s1 have "addName e n = (a, e1)" by simp
    from addName_values [OF this] Cons.prems(1) AddName show ?thesis
      by (simp add: valuesOK_def isAddValue_def)
  next
    case (AddPath p)
    with s1 have "addPath e p = (a, e1)" by simp
    from addPath_values [OF this] Cons.prems(1) AddPath show ?thesis
      by (simp add: valuesOK_def isAddValue_def)
  next
    case (AddValue v)
    with s1 have "addValue e v = (a, e1)" by simp
    from addValue_ok [OF Cons.prems(1) this] AddValue show ?thesis
      by (simp add: isAddValue_def)
  qed
  then have ok1: "valuesOK e1" by simp
  note h2 = Cons.IH [OF ok1 s2]
  from h2 obtain xs where xs: "values' e' = values' e1 @ xs" by (auto simp: prefix_def)
  have idx: "\<forall>i < length (r # rs). \<forall>v. (r # rs) ! i = AddValue v \<longrightarrow>
       outs ! i = '':v'' @ toString (nextValue e + length (filter isAddValue (take i (r # rs)))) \<and>
       (outs ! i, v) \<in> set (values' e')"
  proof (intro allI impI)
    fix i v assume i: "i < length (r # rs)" and r: "(r # rs) ! i = AddValue v"
    show "outs ! i = '':v'' @ toString (nextValue e + length (filter isAddValue (take i (r # rs)))) \<and>
       (outs ! i, v) \<in> set (values' e')"
    proof (cases i)
      case 0
      with r h1 xs outs show ?thesis by auto
    next
      case (Suc j)
      with i r have "j < length rs" "rs ! j = AddValue v" by simp_all
      with h2 have bj: "bs ! j = '':v'' @ toString (nextValue e1 + length (filter isAddValue (take j rs)))"
        and mem: "(bs ! j, v) \<in> set (values' e')" by blast+
      from h1 Suc have cnt: "nextValue e + length (filter isAddValue (take i (r # rs))) =
          nextValue e1 + length (filter isAddValue (take j rs))" by simp
      from outs Suc have "outs ! i = bs ! j" by simp
      with bj mem cnt show ?thesis by simp
    qed
  qed
  from h1 h2 have pre: "prefix (values' e) (values' e')" by (auto intro: prefix_order.trans)
  from h2 have ok': "valuesOK e'" by simp
  from h1 h2 have cnt': "nextValue e' = nextValue e + length (filter isAddValue (r # rs))" by simp
  from ok' cnt' pre idx show ?case by (intro conjI)
qed

lemma filter_take_less:
  assumes "i < j" and "j \<le> length xs" and "P (xs ! i)"
  shows "length (filter P (take i xs)) < length (filter P (take j xs))"
proof -
  from assms have "take j xs = take i xs @ xs ! i # take (j - Suc i) (drop (Suc i) xs)"
    by (metis Cons_nth_drop_Suc Suc_diff_Suc diff_Suc_Suc le_add_diff_inverse less_imp_le_nat
        less_le_trans take_Suc_Cons take_add)
  with assms(3) show ?thesis by simp
qed

text \<open>\<open>reset\<close> returns the instance to the state of a new one, predicates and path mode kept.\<close>

lemma reset_new:
  "names (reset e) = [] \<and> nextName (reset e) = 0 \<and> values' (reset e) = [] \<and>
   nextValue (reset e) = 0 \<and> isReservedName (reset e) = isReservedName e \<and>
   isValidName (reset e) = isValidName e \<and> treatNameAsPath (reset e) = treatNameAsPath e"
  by (simp add: reset_def)

text \<open>
  Claim C2 (value non-dedup). On an instance with no values yet, in any sequence of
  requests, the \<open>addValue\<close> call at position \<open>i\<close> returns \<open>:v<k>\<close> where \<open>k\<close> is the number
  of \<open>addValue\<close> calls before it, and the exported values map holds the supplied value
  under that alias; two \<open>addValue\<close> calls never return the same alias, whether or not
  their values are equal.
\<close>

theorem value_non_dedup:
  assumes "values' e = []" and "nextValue e = 0" and "doRequests e rs = (outs, e')"
  shows "(\<forall>i < length rs. \<forall>v. rs ! i = AddValue v \<longrightarrow>
            outs ! i = '':v'' @ toString (length (filter isAddValue (take i rs))) \<and>
            map_of (getValues e') (outs ! i) = Some v) \<and>
         (\<forall>i j v w. i < j \<and> j < length rs \<and> rs ! i = AddValue v \<and> rs ! j = AddValue w \<longrightarrow>
            outs ! i \<noteq> outs ! j) \<and>
         length (getValues e') = length (filter isAddValue rs)"
proof -
  from assms(1,2) have ok: "valuesOK e" by (simp add: valuesOK_def)
  note h = doRequests_values [OF ok assms(3)]
  from h have ok': "valuesOK e'" by simp
  from h have all: "\<forall>i < length rs. \<forall>v. rs ! i = AddValue v \<longrightarrow>
       outs ! i = '':v'' @ toString (nextValue e + length (filter isAddValue (take i rs))) \<and>
       (outs ! i, v) \<in> set (values' e')" by (elim conjE)
  have idx: "outs ! i = '':v'' @ toString (length (filter isAddValue (take i rs)))"
    if "i < length rs" "rs ! i = AddValue v" for i v
    using all [rule_format, OF that] assms(2) by simp
  have mem: "(outs ! i, v) \<in> set (values' e')"
    if "i < length rs" "rs ! i = AddValue v" for i v
    using all [rule_format, OF that] by (rule conjunct2)
  have 1: "\<forall>i < length rs. \<forall>v. rs ! i = AddValue v \<longrightarrow>
            outs ! i = '':v'' @ toString (length (filter isAddValue (take i rs))) \<and>
            map_of (getValues e') (outs ! i) = Some v"
  proof (intro allI impI)
    fix i v assume i: "i < length rs" "rs ! i = AddValue v"
    from mem [OF i] valuesOK_distinct_keys [OF ok']
    have "map_of (getValues e') (outs ! i) = Some v" by (simp add: getValues_def)
    with idx [OF i]
    show "outs ! i = '':v'' @ toString (length (filter isAddValue (take i rs))) \<and>
            map_of (getValues e') (outs ! i) = Some v" ..
  qed
  have 2: "\<forall>i j v w. i < j \<and> j < length rs \<and> rs ! i = AddValue v \<and> rs ! j = AddValue w \<longrightarrow>
            outs ! i \<noteq> outs ! j"
  proof (intro allI impI notI)
    fix i j v w
    assume a: "i < j \<and> j < length rs \<and> rs ! i = AddValue v \<and> rs ! j = AddValue w"
      and eq: "outs ! i = outs ! j"
    from a have i: "i < length rs" "rs ! i = AddValue v" and j: "j < length rs" "rs ! j = AddValue w"
      by simp_all
    from eq idx [OF i] idx [OF j]
    have "toString (length (filter isAddValue (take i rs))) =
        toString (length (filter isAddValue (take j rs)))" by simp
    then have "length (filter isAddValue (take i rs)) = length (filter isAddValue (take j rs))"
      by (rule toString_inj)
    moreover from a have "length (filter isAddValue (take i rs)) < length (filter isAddValue (take j rs))"
      by (intro filter_take_less) (simp_all add: isAddValue_def)
    ultimately show False by simp
  qed
  from ok' have "length (map fst (values' e')) = nextValue e'" by (simp add: valuesOK_def)
  with h assms(2) have 3: "length (getValues e') = length (filter isAddValue rs)"
    by (simp add: getValues_def)
  from 1 2 3 show ?thesis by (intro conjI)
qed

theorem value_non_dedup_witness:
  "doRequests newExpressionAttributes [AddValue (NumberValue 1), AddPath ''a'', AddValue (NumberValue 1)] =
     (['':v0'', ''#n0'', '':v1''],
      newExpressionAttributes\<lparr>names := [(''#n0'', ''a'')], nextName := 1,
        values' := [('':v0'', NumberValue 1), ('':v1'', NumberValue 1)], nextValue := 2\<rparr>) \<and>
   '':v0'' \<noteq> '':v1'' \<and>
   map_of [('':v0'', NumberValue 1), ('':v1'', NumberValue 1)] '':v0'' = Some (NumberValue 1) \<and>
   map_of [('':v0'', NumberValue 1), ('':v1'', NumberValue 1)] '':v1'' = Some (NumberValue 1)"
proof -
  let ?e = "newExpressionAttributes"
  let ?rs = "[AddValue (NumberValue 1), AddPath ''a'', AddValue (NumberValue 1)]"
  let ?outs = "['':v0'', ''#n0'', '':v1'']"
  let ?e' = "newExpressionAttributes\<lparr>names := [(''#n0'', ''a'')], nextName := 1,
        values' := [('':v0'', NumberValue 1), ('':v1'', NumberValue 1)], nextValue := 2\<rparr>"
  have run: "doRequests ?e ?rs = (?outs, ?e')"
    by (simp add: newExpressionAttributes_def addPath_def addSegment_def addName_def addValue_def
      endsWith_def findKey_def Let_def toString_0 toString_Suc0)
  have p: "values' ?e = []" "nextValue ?e = 0" by (simp_all add: newExpressionAttributes_def)
  note h = value_non_dedup [OF p run]
  have gv: "getValues ?e' = [('':v0'', NumberValue 1), ('':v1'', NumberValue 1)]" by (simp add: getValues_def)
  from h have 1: "\<forall>i < length ?rs. \<forall>v. ?rs ! i = AddValue v \<longrightarrow>
            ?outs ! i = '':v'' @ toString (length (filter isAddValue (take i ?rs))) \<and>
            map_of (getValues ?e') (?outs ! i) = Some v" by (rule conjunct1)
  from h have 2: "\<forall>i j v w. i < j \<and> j < length ?rs \<and> ?rs ! i = AddValue v \<and> ?rs ! j = AddValue w \<longrightarrow>
            ?outs ! i \<noteq> ?outs ! j" by (elim conjE)
  from 1 [rule_format, of 0 "NumberValue 1"] have a: "map_of [('':v0'', NumberValue 1), ('':v1'', NumberValue 1)] '':v0'' = Some (NumberValue 1)"
    unfolding gv by simp
  from 1 [rule_format, of 2 "NumberValue 1"] have b: "map_of [('':v0'', NumberValue 1), ('':v1'', NumberValue 1)] '':v1'' = Some (NumberValue 1)"
    unfolding gv by simp
  from 2 [rule_format, of 0 2 "NumberValue 1" "NumberValue 1"] have c: "'':v0'' \<noteq> '':v1''" by simp
  from run c a b show ?thesis by (intro conjI)
qed

subsection \<open>Reserved and valid names\<close>

text \<open>
  Claim C5, as the code has it. A name the reserved-name predicate marks gets the alias
  \<open>#\<close> followed by the name itself, recorded in the names map under that alias, and the
  counter does not move. A name that is not reserved and that the valid-name predicate
  marks is returned unchanged and the instance is left as it was.
\<close>

theorem addName_reserved_valid:
  "(isReservedName e n \<longrightarrow>
      addName e n = (''#'' @ n, e\<lparr>names := AList.update (''#'' @ n) n (names e)\<rparr>) \<and>
      map_of (getPaths (snd (addName e n))) (''#'' @ n) = Some n \<and>
      nextName (snd (addName e n)) = nextName e) \<and>
   (\<not> isReservedName e n \<and> isValidName e n \<longrightarrow> addName e n = (n, e))"
  by (simp add: addName_def getPaths_def AList.update_conv' Let_def)

theorem addName_reserved_valid_witness:
  "isReservedName (newExpressionAttributes\<lparr>isReservedName := (=) ''size'',
      isValidName := isValidAttributeName\<rparr>) ''size'' \<and>
   addName (newExpressionAttributes\<lparr>isReservedName := (=) ''size'',
      isValidName := isValidAttributeName\<rparr>) ''size'' =
     (''#size'', newExpressionAttributes\<lparr>isReservedName := (=) ''size'',
        isValidName := isValidAttributeName, names := [(''#size'', ''size'')]\<rparr>) \<and>
   \<not> isReservedName (newExpressionAttributes\<lparr>isReservedName := (=) ''size'',
      isValidName := isValidAttributeName\<rparr>) ''rev'' \<and>
   isValidName (newExpressionAttributes\<lparr>isReservedName := (=) ''size'',
      isValidName := isValidAttributeName\<rparr>) ''rev'' \<and>
   addName (newExpressionAttributes\<lparr>isReservedName := (=) ''size'',
      isValidName := isValidAttributeName\<rparr>) ''rev'' =
     (''rev'', newExpressionAttributes\<lparr>isReservedName := (=) ''size'',
        isValidName := isValidAttributeName\<rparr>)"
proof -
  let ?e = "newExpressionAttributes\<lparr>isReservedName := (=) ''size'',
      isValidName := isValidAttributeName\<rparr>"
  have r: "isReservedName ?e ''size''" by simp
  have v: "\<not> isReservedName ?e ''rev'' \<and> isValidName ?e ''rev''"
    by (simp add: isValidAttributeName_def isLetter_def isDigit_def)
  from addName_reserved_valid [of ?e "''size''"] r
  have 1: "addName ?e ''size'' = (''#'' @ ''size'', ?e\<lparr>names := AList.update (''#'' @ ''size'') ''size'' (names ?e)\<rparr>)"
    by blast
  from addName_reserved_valid [of ?e "''rev''"] v
  have 2: "addName ?e ''rev'' = (''rev'', ?e)" by blast
  from 1 have 3: "addName ?e ''size'' = (''#size'', ?e\<lparr>names := [(''#size'', ''size'')]\<rparr>)"
    by (simp add: newExpressionAttributes_def)
  from r 3 v 2 show ?thesis by (intro conjI) simp_all
qed

text \<open>
  Claim C5 as stated fails on the name \<open>size\<close> when it is reserved and, as the static
  name test has it, valid: the alias is \<open>#size\<close>, which is not of the form \<open>#n<seq>\<close>,
  the name is not returned unchanged, and an alias is recorded.
\<close>

theorem addName_reserved_counterexample:
  "isReservedName (newExpressionAttributes\<lparr>isReservedName := (=) ''size'',
      isValidName := isValidAttributeName\<rparr>) ''size'' \<and>
   isValidName (newExpressionAttributes\<lparr>isReservedName := (=) ''size'',
      isValidName := isValidAttributeName\<rparr>) ''size'' \<and>
   fst (addName (newExpressionAttributes\<lparr>isReservedName := (=) ''size'',
      isValidName := isValidAttributeName\<rparr>) ''size'') = ''#size'' \<and>
   \<not> prefix ''#n'' ''#size'' \<and>
   ''#size'' \<noteq> ''size'' \<and>
   getPaths (snd (addName (newExpressionAttributes\<lparr>isReservedName := (=) ''size'',
      isValidName := isValidAttributeName\<rparr>) ''size'')) = [(''#size'', ''size'')]"
  by (simp add: addName_def getPaths_def newExpressionAttributes_def
      isValidAttributeName_def isLetter_def isDigit_def Let_def)

section \<open>Properties of the update compiler\<close>

lemma extends_refl: "extends [] b b"
  by (simp add: extends_def)

lemma extends_trans:
  assumes "extends cs b b1" and "extends ds b1 b2"
  shows "extends (cs @ ds) b b2"
proof -
  from assms(1) obtain s r a d where 1: "setList b1 = setList b @ s" "removeList b1 = removeList b @ r"
    "addList b1 = addList b @ a" "delList b1 = delList b @ d"
    "(s \<noteq> []) = (SET \<in> set cs)" "(r \<noteq> []) = (REMOVE \<in> set cs)"
    "(a \<noteq> []) = (ADD \<in> set cs)" "(d \<noteq> []) = (DELETE \<in> set cs)"
    unfolding extends_def by blast
  from assms(2) obtain s' r' a' d' where 2: "setList b2 = setList b1 @ s'" "removeList b2 = removeList b1 @ r'"
    "addList b2 = addList b1 @ a'" "delList b2 = delList b1 @ d'"
    "(s' \<noteq> []) = (SET \<in> set ds)" "(r' \<noteq> []) = (REMOVE \<in> set ds)"
    "(a' \<noteq> []) = (ADD \<in> set ds)" "(d' \<noteq> []) = (DELETE \<in> set ds)"
    unfolding extends_def by blast
  show ?thesis unfolding extends_def
  proof (intro exI conjI)
    show "setList b2 = setList b @ (s @ s')" using 1 2 by simp
    show "removeList b2 = removeList b @ (r @ r')" using 1 2 by simp
    show "addList b2 = addList b @ (a @ a')" using 1 2 by simp
    show "delList b2 = delList b @ (d @ d')" using 1 2 by simp
    show "(s @ s' \<noteq> []) = (SET \<in> set (cs @ ds))" using 1 2 by auto
    show "(r @ r' \<noteq> []) = (REMOVE \<in> set (cs @ ds))" using 1 2 by auto
    show "(a @ a' \<noteq> []) = (ADD \<in> set (cs @ ds))" using 1 2 by auto
    show "(d @ d' \<noteq> []) = (DELETE \<in> set (cs @ ds))" using 1 2 by auto
  qed
qed

lemma extends_set: "extends [SET] b (b\<lparr>attrs := e, setList := setList b @ [x]\<rparr>)"
  by (simp add: extends_def)

lemma extends_remove: "extends [REMOVE] b (b\<lparr>attrs := e, removeList := removeList b @ [x]\<rparr>)"
  by (simp add: extends_def)

lemma extends_add: "extends [ADD] b (b\<lparr>attrs := e, addList := addList b @ [x]\<rparr>)"
  by (simp add: extends_def)

lemma extends_del: "extends [DELETE] b (b\<lparr>attrs := e, delList := delList b @ [x]\<rparr>)"
  by (simp add: extends_def)

lemma arith_extends: "extends [SET] b (arith op path src v b)"
  by (simp add: arith_def Let_def extends_set split: prod.splits)

lemma compile_extends:
  "extends (clausesOf dv) b (compile path dv b)"
  "extends (clausesOfMap kvs) b (compileMap path kvs b)"
proof (induction path dv b and path kvs b rule: compile_compileMap.induct)
  case (11 path b)
  show ?case by (simp add: extends_refl)
next
  case (12 path kv rest b)
  from "12.IH"(1) "12.IH"(2) show ?case by (simp add: extends_trans)
qed (simp_all add: Let_def arith_extends extends_set extends_remove extends_add extends_del
      split: prod.splits)

lemma compileFields_extends: "extends (clausesOfMap fs) b (compileFields fs b)"
proof (induction fs arbitrary: b)
  case Nil
  show ?case by (simp add: extends_refl)
next
  case (Cons kv rest)
  from compile_extends(1) [of "snd kv" b "fst kv"] Cons [of "compile (fst kv) (snd kv) b"]
  show ?case by (simp add: extends_trans)
qed

lemma set_clausesOfMap: "set (clausesOfMap fs) = (\<Union>kv \<in> set fs. set (clausesOf (snd kv)))"
  by (induction fs) auto

lemma hasEachKind_mset:
  assumes "mset fs' = mset fs"
  shows "hasEachKind fs' = hasEachKind fs"
proof -
  from assms have "set fs' = set fs" by (rule mset_eq_setD)
  then show ?thesis by (simp add: hasEachKind_def set_clausesOfMap)
qed

text \<open>
  For any update record: a buffer is non-empty exactly when a directive contributes to its
  clause, and the expression is made of the non-empty buffers' clauses, or left out when
  there is none.
\<close>

lemma clause_presence:
  assumes "b = compileFields fs \<lparr>attrs = e, setList = [], removeList = [], addList = [], delList = []\<rparr>"
  shows "(setList b \<noteq> []) = (SET \<in> set (clausesOfMap fs)) \<and>
    (removeList b \<noteq> []) = (REMOVE \<in> set (clausesOfMap fs)) \<and>
    (addList b \<noteq> []) = (ADD \<in> set (clausesOfMap fs)) \<and>
    (delList b \<noteq> []) = (DELETE \<in> set (clausesOfMap fs)) \<and>
    UpdateExpression (snd (Update_addParam (Some fs) e ps)) =
      (if set (clausesOfMap fs) = {} then UpdateExpression ps
       else Some (join '' '' (clause ''SET'' (setList b) @ clause ''REMOVE'' (removeList b) @
                              clause ''ADD'' (addList b) @ clause ''DELETE'' (delList b))))"
proof -
  let ?b0 = "\<lparr>attrs = e, setList = [], removeList = [], addList = [], delList = []\<rparr>"
  from compileFields_extends [of fs ?b0] assms have x: "extends (clausesOfMap fs) ?b0 b" by simp
  then have p: "(setList b \<noteq> []) = (SET \<in> set (clausesOfMap fs))"
    "(removeList b \<noteq> []) = (REMOVE \<in> set (clausesOfMap fs))"
    "(addList b \<noteq> []) = (ADD \<in> set (clausesOfMap fs))"
    "(delList b \<noteq> []) = (DELETE \<in> set (clausesOfMap fs))"
    by (auto simp: extends_def)
  have "(set (clausesOfMap fs) = {}) =
      (setList b = [] \<and> removeList b = [] \<and> addList b = [] \<and> delList b = [])"
  proof
    assume "set (clausesOfMap fs) = {}"
    with p show "setList b = [] \<and> removeList b = [] \<and> addList b = [] \<and> delList b = []" by simp
  next
    assume e: "setList b = [] \<and> removeList b = [] \<and> addList b = [] \<and> delList b = []"
    show "set (clausesOfMap fs) = {}"
    proof (rule ccontr)
      assume "set (clausesOfMap fs) \<noteq> {}"
      then obtain c where c: "c \<in> set (clausesOfMap fs)"
        by (cases "clausesOfMap fs") auto
      with p e show False by (cases c) simp_all
    qed
  qed
  then have "UpdateExpression (snd (Update_addParam (Some fs) e ps)) =
      (if set (clausesOfMap fs) = {} then UpdateExpression ps
       else Some (join '' '' (clause ''SET'' (setList b) @ clause ''REMOVE'' (removeList b) @
                              clause ''ADD'' (addList b) @ clause ''DELETE'' (delList b))))"
    using assms by (auto simp: Update_addParam_def buildExpression_def clause_def Let_def)
  with p show ?thesis by (intro conjI)
qed

lemma join_clauses4: "join '' '' [a, b, c, d] = a @ '' '' @ b @ '' '' @ c @ '' '' @ d"
  by simp

text \<open>
  Claim C8 (clause ordering). If the directives of an update record, nested ones included,
  contribute to each of the four clauses, then for every reordering of the record all four
  buffers are non-empty and the compiled \<open>UpdateExpression\<close> is \<open>SET\<close>, \<open>REMOVE\<close>, \<open>ADD\<close>,
  \<open>DELETE\<close> in this order, each keyword followed by its buffer's entries joined with
  a comma and a space, the clauses separated by one space.
\<close>

theorem clause_ordering:
  assumes "hasEachKind fs" and "mset fs' = mset fs"
    and "b = compileFields fs' \<lparr>attrs = e, setList = [], removeList = [], addList = [], delList = []\<rparr>"
  shows "setList b \<noteq> [] \<and> removeList b \<noteq> [] \<and> addList b \<noteq> [] \<and> delList b \<noteq> [] \<and>
    UpdateExpression (snd (Update_addParam (Some fs') e ps)) =
      Some (''SET '' @ join '', '' (setList b) @ '' REMOVE '' @ join '', '' (removeList b) @
            '' ADD '' @ join '', '' (addList b) @ '' DELETE '' @ join '', '' (delList b))"
proof -
  let ?b0 = "\<lparr>attrs = e, setList = [], removeList = [], addList = [], delList = []\<rparr>"
  from hasEachKind_mset [OF assms(2)] assms(1) have "hasEachKind fs'" by simp
  then have kinds: "set (clausesOfMap fs') = {SET, REMOVE, ADD, DELETE}" by (simp add: hasEachKind_def)
  from compileFields_extends [of fs' ?b0] assms(3) have "extends (clausesOfMap fs') ?b0 b" by simp
  with kinds have ne: "setList b \<noteq> []" "removeList b \<noteq> []" "addList b \<noteq> []" "delList b \<noteq> []"
    by (auto simp: extends_def)
  then have "buildExpression b =
      Some (''SET '' @ join '', '' (setList b) @ '' REMOVE '' @ join '', '' (removeList b) @
            '' ADD '' @ join '', '' (addList b) @ '' DELETE '' @ join '', '' (delList b))"
    by (simp add: buildExpression_def clause_def)
  with assms(3) have "UpdateExpression (snd (Update_addParam (Some fs') e ps)) =
      Some (''SET '' @ join '', '' (setList b) @ '' REMOVE '' @ join '', '' (removeList b) @
            '' ADD '' @ join '', '' (addList b) @ '' DELETE '' @ join '', '' (delList b))"
    by (simp add: Update_addParam_def Let_def)
  with ne show ?thesis by (intro conjI)
qed

theorem clause_ordering_witness:
  "hasEachKind [(''a'', Set Null), (''b'', Delete), (''c'', AddToSet Null), (''d'', RemoveFromSet Null)] \<and>
   mset [(''d'', RemoveFromSet Null), (''c'', AddToSet Null), (''b'', Delete), (''a'', Set Null)] =
     mset [(''a'', Set Null), (''b'', Delete), (''c'', AddToSet Null), (''d'', RemoveFromSet Null)] \<and>
   UpdateExpression (snd (Update_addParam
       (Some [(''d'', RemoveFromSet Null), (''c'', AddToSet Null), (''b'', Delete), (''a'', Set Null)])
       newExpressionAttributes emptyParams)) =
     Some ''SET #n3 = :v2 REMOVE #n2 ADD #n1 :v1 DELETE #n0 :v0''"
proof -
  let ?fs = "[(''a'', Set Null), (''b'', Delete), (''c'', AddToSet Null), (''d'', RemoveFromSet Null)]"
  let ?fs' = "[(''d'', RemoveFromSet Null), (''c'', AddToSet Null), (''b'', Delete), (''a'', Set Null)]"
  let ?b0 = "\<lparr>attrs = newExpressionAttributes, setList = [], removeList = [], addList = [], delList = []\<rparr>"
  have k: "hasEachKind ?fs" by (auto simp: hasEachKind_def)
  have m: "mset ?fs' = mset ?fs" by simp
  have t: "toString (Suc (Suc 0)) = ''2''" "toString (Suc (Suc (Suc 0))) = ''3''"
    by (simp_all add: toString.simps digit_def)
  have b: "compileFields ?fs' ?b0 =
    \<lparr>attrs = newExpressionAttributes\<lparr>names := [(''#n0'', ''d''), (''#n1'', ''c''), (''#n2'', ''b''), (''#n3'', ''a'')],
        nextName := 4, values' := [('':v0'', Null), ('':v1'', Null), ('':v2'', Null)], nextValue := 3\<rparr>,
      setList = [''#n3 = :v2''], removeList = [''#n2''], addList = [''#n1 :v1''], delList = [''#n0 :v0'']\<rparr>"
    by (simp add: newExpressionAttributes_def addPath_def addSegment_def addName_def addValue_def
      endsWith_def findKey_def Let_def toString_0 toString_Suc0 t)
  note h = clause_ordering [OF k m b [symmetric], of emptyParams]
  from h have "UpdateExpression (snd (Update_addParam (Some ?fs') newExpressionAttributes emptyParams)) =
     Some ''SET #n3 = :v2 REMOVE #n2 ADD #n1 :v1 DELETE #n0 :v0''" by simp
  with k m show ?thesis by (intro conjI)
qed

text \<open>
  The update of the test \<open>Model.updateParams with all fields\<close>, as the directives the
  fields hand to the compiler (table attribute names; the set and list values matter only
  as values): the model gives the expression and the names map the test expects.
\<close>

lemma update_all_fields_test:
  "UpdateExpression (snd (Update_addParam (Some
     [(''G0S'', Set (StringValue ''kirkland.wa.usa'')),
      (''name'', Set (StringValue ''new name'')),
      (''count'', Increment (Some ''revision'') (NumberValue 3)),
      (''desc'', Delete),
      (''rev'', Increment None (NumberValue 1)),
      (''adult'', Delete),
      (''photo'', PathReference ''photo''),
      (''interests'', RemoveFromSet (StringSetValue [''soccer'', ''football''])),
      (''modified'', AddToSet (NumberSetValue [1585533302, 1585543302])),
      (''children'', Prepend (ListValue [MapValue [(''name'', StringValue ''child3''),
          (''age'', NumberValue 3), (''adult'', BooleanValue False)]])),
      (''spouse'', Map [(''age'', Decrement None (NumberValue 1)), (''married'', Delete),
          (''name'', Set (StringValue ''new spouse''))]),
      (''groups'', Map [(''group1'', Delete), (''group3.role'', Set (NumberValue 2)),
          (''group4'', Set (MapValue [(''role'', NumberValue 3)]))]),
      (''created'', Set (NumberValue 1585553302))])
     newExpressionAttributes emptyParams)) =
   Some ''SET #n0 = :v0, #n1 = :v1, #n2 = #n3 + :v2, #n5 = #n5 + :v3, #n7 = #n7, #n10 = list_append(:v6, #n10), #n11.#n12 = #n11.#n12 - :v7, #n11.#n1 = :v8, #n14.#n16.#n17 = :v9, #n14.#n18 = :v10, #n19 = :v11 REMOVE #n4, #n6, #n11.#n13, #n14.#n15 ADD #n9 :v5 DELETE #n8 :v4''"
  by code_simp

section \<open>Properties of the request builders\<close>

lemma addParams_frame:
  "TableName (addParams e ps) = TableName ps"
  "Key (addParams e ps) = Key ps"
  "Item (addParams e ps) = Item ps"
  "UpdateExpression (addParams e ps) = UpdateExpression ps"
  "ConditionExpression (addParams e ps) = ConditionExpression ps"
  "otherParams (addParams e ps) = otherParams ps"
  by (simp_all add: addParams_def Let_def)

lemma addAndParam_frame:
  "TableName (snd (addAndParam C conds e ps)) = TableName ps"
  "Key (snd (addAndParam C conds e ps)) = Key ps"
  "Item (snd (addAndParam C conds e ps)) = Item ps"
  by (simp_all add: addAndParam_def Let_def split: option.splits list.splits prod.splits)

lemma Update_addParam_frame:
  "TableName (snd (Update_addParam item e ps)) = TableName ps"
  "Key (snd (Update_addParam item e ps)) = Key ps"
  "Item (snd (Update_addParam item e ps)) = Item ps"
  by (simp_all add: Update_addParam_def Let_def split: option.splits)

lemma getParams_identity:
  "TableName (getParams t key opts) = Some (name t)" "Key (getParams t key opts) = Some key"
  by (simp_all add: getParams_def)

lemma deleteParams_identity:
  "TableName (deleteParams C t key opts) = Some (name t)"
  "Key (deleteParams C t key opts) = Some key"
proof -
  let ?ps = "(spread (params opts))\<lparr>TableName := Some (name t), Key := Some key\<rparr>"
  let ?r = "addAndParam C (conditions opts) (attributesOr (attributes opts)) ?ps"
  have d: "deleteParams C t key opts = addParams (fst ?r) (snd ?r)"
    by (simp add: deleteParams_def Let_def split: prod.splits)
  show "TableName (deleteParams C t key opts) = Some (name t)"
    by (simp add: d addParams_frame addAndParam_frame)
  show "Key (deleteParams C t key opts) = Some key"
    by (simp add: d addParams_frame addAndParam_frame)
qed

lemma updateParams_identity:
  "TableName (updateParams C t key item opts) = Some (name t)"
  "Key (updateParams C t key item opts) = Some key"
proof -
  let ?ps = "(spread (params opts))\<lparr>TableName := Some (name t), Key := Some key\<rparr>"
  let ?u = "Update_addParam item (attributesOr (attributes opts)) ?ps"
  let ?r = "addAndParam C (conditions opts) (fst ?u) (snd ?u)"
  have d: "updateParams C t key item opts = addParams (fst ?r) (snd ?r)"
    by (simp add: updateParams_def Let_def split: prod.splits)
  show "TableName (updateParams C t key item opts) = Some (name t)"
    by (simp add: d addParams_frame addAndParam_frame Update_addParam_frame)
  show "Key (updateParams C t key item opts) = Some key"
    by (simp add: d addParams_frame addAndParam_frame Update_addParam_frame)
qed

lemma putParams_fields:
  "TableName (putParams C t key item opts) = Some (name t)"
  "Item (putParams C t key item opts) = Some (key ++ (case item of None \<Rightarrow> Map.empty | Some i \<Rightarrow> i))"
  "Key (putParams C t key item opts) = Key (spread (params opts))"
proof -
  let ?ps = "(spread (params opts))\<lparr>TableName := Some (name t),
     Item := Some (key ++ (case item of None \<Rightarrow> Map.empty | Some i \<Rightarrow> i))\<rparr>"
  obtain conds where d0: "putParams C t key item opts =
      (let (e1, ps1) = addAndParam C (Some conds) (attributesOr (attributes opts)) ?ps
       in addParams e1 ps1)"
    by (simp add: putParams_def Let_def)
  let ?r = "addAndParam C (Some conds) (attributesOr (attributes opts)) ?ps"
  from d0 have d: "putParams C t key item opts = addParams (fst ?r) (snd ?r)"
    by (simp add: Let_def split: prod.splits)
  show "TableName (putParams C t key item opts) = Some (name t)"
    by (simp add: d addParams_frame addAndParam_frame)
  show "Item (putParams C t key item opts) = Some (key ++ (case item of None \<Rightarrow> Map.empty | Some i \<Rightarrow> i))"
    by (simp add: d addParams_frame addAndParam_frame)
  show "Key (putParams C t key item opts) = Key (spread (params opts))"
    by (simp add: d addParams_frame addAndParam_frame)
qed

text \<open>
  Claim C4, as the code has it. The request \<open>putParams\<close> returns for a whole-record write
  carries the table's name and one \<open>Item\<close>: the key map merged with the item map, an item
  entry winning over a key entry of the same name. It sets no \<open>Key\<close> field: the request
  has one only if the caller's \<open>options.params\<close> had.
\<close>

theorem putParams_whole_record:
  "TableName (putParams C t key item opts) = Some (name t) \<and>
   Item (putParams C t key item opts) =
     Some (key ++ (case item of None \<Rightarrow> Map.empty | Some i \<Rightarrow> i)) \<and>
   Key (putParams C t key item opts) = (case params opts of None \<Rightarrow> None | Some p \<Rightarrow> Key p)"
  by (simp add: putParams_fields spread_def emptyParams_def split: option.splits)

text \<open>
  Claim C4 as stated fails on the write of key \<open>{P: 'id1'}\<close> and item \<open>{name: 'n'}\<close> with
  no options: the request has no \<open>Key\<close>, and its \<open>Item\<close> holds \<open>P\<close>, which the item map
  does not.
\<close>

theorem putParams_key_item_counterexample:
  "Key (putParams plainCondition mainTable [''P'' \<mapsto> StringValue ''id1'']
          (Some [''name'' \<mapsto> StringValue ''n'']) noOptions) = None \<and>
   Item (putParams plainCondition mainTable [''P'' \<mapsto> StringValue ''id1'']
          (Some [''name'' \<mapsto> StringValue ''n'']) noOptions) =
     Some [''P'' \<mapsto> StringValue ''id1'', ''name'' \<mapsto> StringValue ''n''] \<and>
   [''P'' \<mapsto> StringValue ''id1'', ''name'' \<mapsto> StringValue ''n''] \<noteq>
     [''name'' \<mapsto> StringValue ''n'']"
proof -
  have "[''P'' \<mapsto> StringValue ''id1'', ''name'' \<mapsto> StringValue ''n''] ''P'' \<noteq>
      [''name'' \<mapsto> StringValue ''n''] ''P''" by simp
  then have ne: "[''P'' \<mapsto> StringValue ''id1'', ''name'' \<mapsto> StringValue ''n''] \<noteq>
      [''name'' \<mapsto> StringValue ''n'']" by metis
  then show ?thesis
    by (simp add: putParams_fields spread_def emptyParams_def noOptions_def)
qed

text \<open>
  Claim C10. Whatever the options hold, in particular whatever \<open>TableName\<close>, \<open>Key\<close> or
  \<open>Item\<close> their \<open>params\<close> carry, the requests of \<open>getParams\<close>, \<open>deleteParams\<close> and
  \<open>updateParams\<close> have the table's name and the given key, and the request of \<open>putParams\<close>
  has the table's name and the merge of key and item as \<open>Item\<close>.
\<close>

theorem options_cannot_override_identity:
  "TableName (getParams t key opts) = Some (name t) \<and>
   Key (getParams t key opts) = Some key \<and>
   TableName (deleteParams C t key opts) = Some (name t) \<and>
   Key (deleteParams C t key opts) = Some key \<and>
   TableName (updateParams C t key upd opts) = Some (name t) \<and>
   Key (updateParams C t key upd opts) = Some key \<and>
   TableName (putParams C t key item opts) = Some (name t) \<and>
   Item (putParams C t key item opts) =
     Some (key ++ (case item of None \<Rightarrow> Map.empty | Some i \<Rightarrow> i))"
  by (simp add: getParams_identity deleteParams_identity updateParams_identity putParams_fields)

text \<open>
  Claim C7. \<open>addParams\<close> sets \<open>ExpressionAttributeNames\<close> to the names map exactly when
  that map is non-empty and \<open>ExpressionAttributeValues\<close> to the values map exactly when
  that map is non-empty, and otherwise leaves the request as it was. So an update with no
  item attributes and no options is \<open>TableName\<close> and \<open>Key\<close> and nothing else.
\<close>

theorem empty_maps_omitted:
  "ExpressionAttributeNames (addParams e ps) =
     (if names e = [] then ExpressionAttributeNames ps else Some (getPaths e)) \<and>
   ExpressionAttributeValues (addParams e ps) =
     (if values' e = [] then ExpressionAttributeValues ps else Some (getValues e)) \<and>
   addParams e ps = ps\<lparr>ExpressionAttributeNames := ExpressionAttributeNames (addParams e ps),
                        ExpressionAttributeValues := ExpressionAttributeValues (addParams e ps)\<rparr> \<and>
   updateParams C t key (Some []) noOptions =
     emptyParams\<lparr>TableName := Some (name t), Key := Some key\<rparr> \<and>
   updateParams C t key None noOptions =
     emptyParams\<lparr>TableName := Some (name t), Key := Some key\<rparr>"
  by (simp add: addParams_def getPaths_def getValues_def Let_def updateParams_def
      Update_addParam_def buildExpression_def clause_def addAndParam_def noOptions_def
      spread_def attributesOr_def newExpressionAttributes_def emptyParams_def)

section \<open>Properties of the model codec\<close>

lemma fold_splitStep:
  "fold (splitStep data) ns (k, i) =
     ((\<lambda>n. if n \<in> set ns \<and> getProperty data n \<noteq> Undefined \<and> n \<noteq> ''__proto__''
           then Some (getProperty data n) else k n),
      (\<lambda>n. if n \<in> set ns \<and> getProperty data n \<noteq> Undefined then None else i n))"
proof (induction ns arbitrary: k i)
  case Nil
  show ?case by simp
next
  case (Cons m ns)
  show ?case
  proof (cases "getProperty data m = Undefined")
    case True
    then have "fold (splitStep data) (m # ns) (k, i) = fold (splitStep data) ns (k, i)"
      by (simp add: splitStep_def)
    also note Cons
    also from True have
      "((\<lambda>n. if n \<in> set ns \<and> getProperty data n \<noteq> Undefined \<and> n \<noteq> ''__proto__''
            then Some (getProperty data n) else k n),
        (\<lambda>n. if n \<in> set ns \<and> getProperty data n \<noteq> Undefined then None else i n)) =
       ((\<lambda>n. if n \<in> set (m # ns) \<and> getProperty data n \<noteq> Undefined \<and> n \<noteq> ''__proto__''
            then Some (getProperty data n) else k n),
        (\<lambda>n. if n \<in> set (m # ns) \<and> getProperty data n \<noteq> Undefined then None else i n))"
      by (auto simp: fun_eq_iff)
    finally show ?thesis .
  next
    case False
    then have "fold (splitStep data) (m # ns) (k, i) =
        fold (splitStep data) ns (setProperty k m (getProperty data m), i(m := None))"
      by (simp add: splitStep_def)
    also note Cons
    also from False have
      "((\<lambda>n. if n \<in> set ns \<and> getProperty data n \<noteq> Undefined \<and> n \<noteq> ''__proto__''
            then Some (getProperty data n) else (setProperty k m (getProperty data m)) n),
        (\<lambda>n. if n \<in> set ns \<and> getProperty data n \<noteq> Undefined then None
              else (i(m := None)) n)) =
       ((\<lambda>n. if n \<in> set (m # ns) \<and> getProperty data n \<noteq> Undefined \<and> n \<noteq> ''__proto__''
            then Some (getProperty data n) else k n),
        (\<lambda>n. if n \<in> set (m # ns) \<and> getProperty data n \<noteq> Undefined then None else i n))"
      by (auto simp: fun_eq_iff setProperty_def)
    finally show ?thesis .
  qed
qed

lemma getProperty_own:
  assumes "n \<notin> set objectPrototype"
  shows "(getProperty data n \<noteq> Undefined) = (data n \<noteq> None \<and> data n \<noteq> Some Undefined)"
    and "getProperty data n \<noteq> Undefined \<Longrightarrow> Some (getProperty data n) = data n"
  using assms by (auto simp: getProperty_def split: option.splits)

lemma plainKeys_own:
  assumes "plainKeys m" and "n \<in> set (map fst (keySchema (table m)))"
  shows "n \<notin> set objectPrototype" and "n \<noteq> ''__proto__''"
proof -
  from assms show "n \<notin> set objectPrototype" by (auto simp: plainKeys_def)
  then show "n \<noteq> ''__proto__''" by (auto simp: objectPrototype_def)
qed

lemma splitTableData_key:
  assumes "plainKeys m"
  shows "fst (splitTableData m data) = (\<lambda>n. if isKeyAttribute m data n then data n else None)"
proof
  fix n
  show "fst (splitTableData m data) n = (if isKeyAttribute m data n then data n else None)"
  proof (cases "n \<in> set (map fst (keySchema (table m)))")
    case True
    note own = plainKeys_own [OF assms True]
    from True own getProperty_own [OF own(1), of data] show ?thesis
      by (auto simp: splitTableData_def fold_splitStep isKeyAttribute_def)
  next
    case False
    then show ?thesis by (simp add: splitTableData_def fold_splitStep isKeyAttribute_def)
  qed
qed

lemma splitTableData_item:
  assumes "plainKeys m"
  shows "snd (splitTableData m data) = (\<lambda>n. if isKeyAttribute m data n then None else data n)"
proof
  fix n
  show "snd (splitTableData m data) n = (if isKeyAttribute m data n then None else data n)"
  proof (cases "n \<in> set (map fst (keySchema (table m)))")
    case True
    note own = plainKeys_own [OF assms True]
    from True getProperty_own(1) [OF own(1), of data] show ?thesis
      by (auto simp: splitTableData_def fold_splitStep isKeyAttribute_def)
  next
    case False
    then show ?thesis by (simp add: splitTableData_def fold_splitStep isKeyAttribute_def)
  qed
qed

lemma splitTableData_union:
  assumes "plainKeys m"
  shows "fst (splitTableData m data) ++ snd (splitTableData m data) = data"
  unfolding splitTableData_key [OF assms] splitTableData_item [OF assms]
  by (auto simp: fun_eq_iff map_add_def isKeyAttribute_def split: option.splits)

text \<open>
  The partition where it holds: when no key of the table's \<open>keySchema\<close> is the name of a
  member of \<open>Object.prototype\<close>. Then the key map of \<open>splitTableData\<close> holds exactly the
  entries of the flat map whose name is a key of the \<open>keySchema\<close> and whose value is
  defined, the item map holds exactly the other entries, the two maps are disjoint and
  together they are the flat map.
\<close>

lemma splitTableData_partition_plain:
  assumes "plainKeys m"
  shows "fst (splitTableData m data) = (\<lambda>n. if isKeyAttribute m data n then data n else None) \<and>
   snd (splitTableData m data) = (\<lambda>n. if isKeyAttribute m data n then None else data n) \<and>
   dom (fst (splitTableData m data)) \<inter> dom (snd (splitTableData m data)) = {} \<and>
   fst (splitTableData m data) ++ snd (splitTableData m data) = data"
proof -
  have d: "dom (fst (splitTableData m data)) \<inter> dom (snd (splitTableData m data)) = {}"
    unfolding splitTableData_key [OF assms] splitTableData_item [OF assms]
    by (auto simp: dom_def)
  from splitTableData_key [OF assms] splitTableData_item [OF assms] d
    splitTableData_union [OF assms]
  show ?thesis by (intro conjI)
qed

lemma splitTableData_partition_plain_example:
  "plainKeys \<lparr>table = mainTable\<rparr> \<and>
   splitTableData \<lparr>table = mainTable\<rparr>
       [''P'' \<mapsto> StringValue ''id1'', ''name'' \<mapsto> StringValue ''n'', ''S'' \<mapsto> Undefined] =
     ([''P'' \<mapsto> StringValue ''id1''], [''name'' \<mapsto> StringValue ''n'', ''S'' \<mapsto> Undefined])"
  by (auto simp: plainKeys_def mainTable_def objectPrototype_def splitTableData_def
      splitStep_def getProperty_def setProperty_def fun_eq_iff)

text \<open>
  Claim C3 at the table whose key is the attribute \<open>constructor\<close> and the empty flat map
  (a record that does not give its key). \<open>data['constructor']\<close> is not \<open>undefined\<close>: it is
  the member every object inherits. So the key map gets an entry \<open>constructor\<close> that the
  flat map does not have, and key map and item map together are not the flat map.
\<close>

theorem splitTableData_inherited:
  "splitTableData \<lparr>table = constructorTable\<rparr> Map.empty =
     ([''constructor'' \<mapsto> Inherited ''constructor''], Map.empty) \<and>
   isKeyAttribute \<lparr>table = constructorTable\<rparr> Map.empty ''constructor'' = False \<and>
   fst (splitTableData \<lparr>table = constructorTable\<rparr> Map.empty) ''constructor'' =
     Some (Inherited ''constructor'') \<and>
   (fst (splitTableData \<lparr>table = constructorTable\<rparr> Map.empty) ++
    snd (splitTableData \<lparr>table = constructorTable\<rparr> Map.empty)) ''constructor'' \<noteq>
     (Map.empty :: AttributeValuesMap) ''constructor''"
  by (simp add: constructorTable_def splitTableData_def splitStep_def getProperty_def
      setProperty_def objectPrototype_def isKeyAttribute_def)

text \<open>
  A whole-record write through the model, for such a table: the \<open>Item\<close> of the request is
  the flat attribute map the fields produced, key attributes included.
\<close>

lemma putParamsOf_item:
  assumes "plainKeys m"
  shows "Item (putParamsOf C m tableData opts) = Some tableData"
proof -
  have "putParamsOf C m tableData opts =
      putParams C (table m) (fst (splitTableData m tableData))
        (Some (snd (splitTableData m tableData))) opts"
    by (simp add: putParamsOf_def split: prod.splits)
  then show ?thesis by (simp add: putParams_fields splitTableData_union [OF assms])
qed

section \<open>Properties of split-key fields\<close>

lemma split_nonempty: "split c s \<noteq> []"
  by (induction s) (auto split: list.splits)

lemma join_butlast_last:
  assumes "2 \<le> length ts"
  shows "join [c] (butlast ts) @ [c] @ last ts = join [c] ts"
  using assms
proof (induction ts)
  case Nil
  then show ?case by simp
next
  case (Cons x xs)
  show ?case
  proof (cases xs)
    case Nil
    with Cons.prems show ?thesis by simp
  next
    case xs: (Cons y ys)
    show ?thesis
    proof (cases ys)
      case Nil
      with xs show ?thesis by simp
    next
      case (Cons z zs)
      with xs have "2 \<le> length xs" by simp
      from Cons.IH [OF this] xs Cons show ?thesis by simp
    qed
  qed
qed

lemma split_single:
  assumes "length (split c s) = 1"
  shows "hd (split c s) = s"
proof -
  from assms obtain x where x: "split c s = [x]" by (cases "split c s") auto
  from join_split [of c s] x show ?thesis by simp
qed

text \<open>
  Claim C9 (split-key round trip), for a split-key field over two different table
  attributes. Extracting from the attributes a string was projected to gives the string
  back. A string without the separator is written whole to the first attribute only; a
  string with \<open>k \<ge> 2\<close> tokens has its first \<open>k - 1\<close> tokens, joined with the separator, in
  the first attribute and its last token in the second.
\<close>

theorem split_key_round_trip:
  assumes "attribute1 f \<noteq> attribute2 f"
  shows "extractSplit f (written (projectSplit f s)) = Some s \<and>
    (length (split (separator f) s) = 1 \<longrightarrow>
       projectSplit f s = [(attribute1 f, StringValue s)]) \<and>
    (2 \<le> length (split (separator f) s) \<longrightarrow>
       projectSplit f s =
         [(attribute1 f, StringValue (join [separator f] (butlast (split (separator f) s)))),
          (attribute2 f, StringValue (last (split (separator f) s)))])"
proof (cases "length (split (separator f) s) = 1")
  case True
  then have p: "projectSplit f s = [(attribute1 f, StringValue s)]"
    by (simp add: projectSplit_def Let_def split_single)
  with assms have "extractSplit f (written (projectSplit f s)) = Some s"
    by (simp add: extractSplit_def written_def stringOf_def Let_def)
  with p True show ?thesis by simp
next
  case False
  let ?ts = "split (separator f) s"
  from False split_nonempty [of "separator f" s] have two: "2 \<le> length ?ts"
    by (cases ?ts) (auto simp: Suc_le_eq)
  from False have p: "projectSplit f s =
      [(attribute1 f, StringValue (join [separator f] (butlast ?ts))),
       (attribute2 f, StringValue (last ?ts))]"
    by (simp add: projectSplit_def Let_def)
  from assms have "extractSplit f (written (projectSplit f s)) =
      Some (join [separator f] (butlast ?ts) @ [separator f] @ last ?ts)"
    by (simp add: p extractSplit_def written_def stringOf_def Let_def)
  also have "join [separator f] (butlast ?ts) @ [separator f] @ last ?ts = s"
    using join_butlast_last [OF two] join_split [of "separator f" s] by simp
  finally have "extractSplit f (written (projectSplit f s)) = Some s" .
  with p False show ?thesis by simp
qed

theorem split_key_round_trip_witness:
  "attribute1 \<lparr>attribute1 = ''P'', attribute2 = ''S'', separator = CHR ''.''\<rparr> \<noteq>
     attribute2 \<lparr>attribute1 = ''P'', attribute2 = ''S'', separator = CHR ''.''\<rparr> \<and>
   2 \<le> length (split CHR ''.'' ''id1.id2.id3.id4'') \<and>
   projectSplit \<lparr>attribute1 = ''P'', attribute2 = ''S'', separator = CHR ''.''\<rparr> ''id1.id2.id3.id4'' =
     [(''P'', StringValue ''id1.id2.id3''), (''S'', StringValue ''id4'')] \<and>
   extractSplit \<lparr>attribute1 = ''P'', attribute2 = ''S'', separator = CHR ''.''\<rparr>
     (written [(''P'', StringValue ''id1.id2.id3''), (''S'', StringValue ''id4'')]) =
     Some ''id1.id2.id3.id4'' \<and>
   length (split CHR ''.'' ''id1'') = 1 \<and>
   projectSplit \<lparr>attribute1 = ''P'', attribute2 = ''S'', separator = CHR ''.''\<rparr> ''id1'' =
     [(''P'', StringValue ''id1'')] \<and>
   extractSplit \<lparr>attribute1 = ''P'', attribute2 = ''S'', separator = CHR ''.''\<rparr>
     (written [(''P'', StringValue ''id1'')]) = Some ''id1''"
proof -
  let ?f = "\<lparr>attribute1 = ''P'', attribute2 = ''S'', separator = CHR ''.''\<rparr>"
  have a: "attribute1 ?f \<noteq> attribute2 ?f" by simp
  have l4: "2 \<le> length (split CHR ''.'' ''id1.id2.id3.id4'')" by simp
  have l1: "length (split CHR ''.'' ''id1'') = 1" by simp
  note h4 = split_key_round_trip [OF a, of "''id1.id2.id3.id4''"]
  note h1 = split_key_round_trip [OF a, of "''id1''"]
  from h4 l4 have p4: "projectSplit ?f ''id1.id2.id3.id4'' =
      [(''P'', StringValue ''id1.id2.id3''), (''S'', StringValue ''id4'')]" by simp
  from h4 have "extractSplit ?f (written (projectSplit ?f ''id1.id2.id3.id4'')) = Some ''id1.id2.id3.id4''"
    by (rule conjunct1)
  then have e4: "extractSplit ?f (written [(''P'', StringValue ''id1.id2.id3''), (''S'', StringValue ''id4'')]) =
      Some ''id1.id2.id3.id4''" unfolding p4 .
  from h1 l1 have p1: "projectSplit ?f ''id1'' = [(''P'', StringValue ''id1'')]" by simp
  from h1 have "extractSplit ?f (written (projectSplit ?f ''id1'')) = Some ''id1''"
    by (rule conjunct1)
  then have e1: "extractSplit ?f (written [(''P'', StringValue ''id1'')]) = Some ''id1''"
    unfolding p1 .
  from a l4 p4 e4 l1 p1 e1 show ?thesis by (intro conjI)
qed

end
